theory Spec2Isabelle
  imports Complex_Main "HOL-Library.Char_ord" "HOL-Library.List_Lexorder"
begin

section \<open>The campus network model (src/app.py, classes Node, Edge and Graph)\<close>

text \<open>
  Building names are Python strings; they are compared with \<open><\<close> by \<open>sorted\<close>, which on
  strings is the lexicographic order of the characters. Distances, times and node weights
  are Python floats and are modelled as reals. A Python \<open>dict\<close> keeps its keys in insertion
  order and \<open>Graph.neighbors\<close> iterates over \<open>self.edges.items()\<close>, so a dict is modelled
  as an association list in insertion order.
\<close>

type_synonym name = string

record node =
  node_name :: name
  node_x :: int
  node_y :: int
  node_weight :: real
  node_canvas_id :: "int option"
  node_label_id :: "int option"

record edge =
  edge_u :: name
  edge_v :: name
  edge_distance :: real
  edge_time :: real
  edge_accessible :: bool
  edge_closed :: bool
  edge_line_id :: "int option"
  edge_label_id :: "int option"

type_synonym ('k, 'v) dict = "('k \<times> 'v) list"

record graph =
  nodes :: "(name, node) dict"
  edges :: "(name \<times> name, edge) dict"

text \<open>
  Every \<open>raise ValueError(...)\<close> of the model is one constructor, named after its message;
  \<open>KeyError\<close> is what \<open>del d[k]\<close> and \<open>d[k]\<close> raise on a missing key, \<open>RecursionError\<close>
  what the interpreter raises when a call would exceed its recursion limit.
\<close>

datatype error =
    EmptyName
  | DuplicateName name
  | NodeNotFound name
  | SelfLoop
  | EndpointMissing
  | DuplicateEdge name name
  | InvalidWeight
  | EdgeNotFound name name
  | KeyError
  | RecursionError

subsection \<open>Dictionary operations\<close>

definition dict_has :: "('k, 'v) dict \<Rightarrow> 'k \<Rightarrow> bool" where
  "dict_has d k = (map_of d k \<noteq> None)"

definition dict_get :: "('k, 'v) dict \<Rightarrow> 'k \<Rightarrow> 'v option" where
  "dict_get d k = map_of d k"

text \<open>\<open>d[k] = v\<close>: an existing key keeps its position, a new key goes to the end.\<close>

definition dict_set :: "('k, 'v) dict \<Rightarrow> 'k \<Rightarrow> 'v \<Rightarrow> ('k, 'v) dict" where
  "dict_set d k v =
     (if dict_has d k then map (\<lambda>(k', v'). if k' = k then (k', v) else (k', v')) d
      else d @ [(k, v)])"

text \<open>\<open>del d[k]\<close>: raises \<open>KeyError\<close> when the key is missing.\<close>

definition dict_del :: "('k, 'v) dict \<Rightarrow> 'k \<Rightarrow> error + ('k, 'v) dict" where
  "dict_del d k =
     (if dict_has d k then Inr (filter (\<lambda>(k', v'). k' \<noteq> k) d) else Inl KeyError)"

text \<open>A Python dict holds every key once.\<close>

definition dict_ok :: "('k, 'v) dict \<Rightarrow> bool" where
  "dict_ok d = distinct (map fst d)"

subsection \<open>Node operations\<close>

text \<open>
  \<open>str.strip()\<close> removes leading and trailing whitespace; the whitespace characters below
  are the ASCII ones of \<open>str.isspace\<close>.
\<close>

definition py_isspace :: "char \<Rightarrow> bool" where
  "py_isspace c = (c \<in> {CHR 0x09, CHR 0x0A, CHR 0x0B, CHR 0x0C, CHR 0x0D,
                          CHR 0x1C, CHR 0x1D, CHR 0x1E, CHR 0x1F, CHR 0x20})"

definition strip :: "string \<Rightarrow> string" where
  "strip s = rev (dropWhile py_isspace (rev (dropWhile py_isspace s)))"

definition empty_graph :: graph where
  "empty_graph = \<lparr>nodes = [], edges = []\<rparr>"

text \<open>
  A mutating method takes the model and returns its outcome together with the model as it
  is when the method returns or raises.
\<close>

text \<open>\<open>Node(name=name, x=int(x), y=int(y))\<close>: the other fields take their defaults.\<close>

definition new_node :: "name \<Rightarrow> int \<Rightarrow> int \<Rightarrow> node" where
  "new_node nm x y =
     \<lparr>node_name = nm, node_x = x, node_y = y, node_weight = 1,
      node_canvas_id = None, node_label_id = None\<rparr>"

definition add_node :: "graph \<Rightarrow> name \<Rightarrow> int \<Rightarrow> int \<Rightarrow> (error + unit) \<times> graph" where
  "add_node g nm x y =
     (if nm = [] \<or> strip nm = [] then (Inl EmptyName, g)
      else if dict_has (nodes g) nm then (Inl (DuplicateName nm), g)
      else (Inr (), g\<lparr>nodes := dict_set (nodes g) nm (new_node nm x y)\<rparr>))"

text \<open>The second loop of \<open>delete_node\<close>: \<open>for key in edges_to_delete: del self.edges[key]\<close>.\<close>

fun del_keys :: "('k, 'v) dict \<Rightarrow> 'k list \<Rightarrow> (error + unit) \<times> ('k, 'v) dict" where
  "del_keys d [] = (Inr (), d)"
| "del_keys d (k # ks) =
     (case dict_del d k of Inl e \<Rightarrow> (Inl e, d) | Inr d' \<Rightarrow> del_keys d' ks)"

text \<open>\<open>name in key\<close> for a key that is a pair.\<close>

definition in_key :: "name \<Rightarrow> name \<times> name \<Rightarrow> bool" where
  "in_key nm k = (nm = fst k \<or> nm = snd k)"

definition delete_node :: "graph \<Rightarrow> name \<Rightarrow> (error + nat) \<times> graph" where
  "delete_node g nm =
     (if \<not> dict_has (nodes g) nm then (Inl (NodeNotFound nm), g)
      else
        let edges_to_delete = filter (in_key nm) (map fst (edges g)) in
        case del_keys (edges g) edges_to_delete of
          (Inl e, es) \<Rightarrow> (Inl e, g\<lparr>edges := es\<rparr>)
        | (Inr _, es) \<Rightarrow>
            (case dict_del (nodes g) nm of
               Inl e \<Rightarrow> (Inl e, g\<lparr>edges := es\<rparr>)
             | Inr ns \<Rightarrow> (Inr (length edges_to_delete), \<lparr>nodes = ns, edges = es\<rparr>)))"

subsection \<open>Edge operations\<close>

text \<open>\<open>tuple(sorted((u, v)))\<close>: the sort is stable, so the pair is swapped only when \<open>v < u\<close>.\<close>

definition sorted_pair :: "name \<Rightarrow> name \<Rightarrow> name \<times> name" where
  "sorted_pair u v = (if v < u then (v, u) else (u, v))"

text \<open>
  \<open>Edge(u=u, v=v, distance=float(distance), time=float(time), accessible=bool(accessible))\<close>:
  the endpoints are stored in the order of the arguments, \<open>closed\<close> takes its default.
\<close>

definition new_edge :: "name \<Rightarrow> name \<Rightarrow> real \<Rightarrow> real \<Rightarrow> bool \<Rightarrow> edge" where
  "new_edge u v distance time accessible =
     \<lparr>edge_u = u, edge_v = v, edge_distance = distance, edge_time = time,
      edge_accessible = accessible, edge_closed = False,
      edge_line_id = None, edge_label_id = None\<rparr>"

definition add_edge ::
  "graph \<Rightarrow> name \<Rightarrow> name \<Rightarrow> real \<Rightarrow> real \<Rightarrow> bool \<Rightarrow> (error + unit) \<times> graph" where
  "add_edge g u v distance time accessible =
     (if u = v then (Inl SelfLoop, g)
      else if \<not> dict_has (nodes g) u \<or> \<not> dict_has (nodes g) v then (Inl EndpointMissing, g)
      else
        let key = sorted_pair u v in
        if dict_has (edges g) key then (Inl (DuplicateEdge u v), g)
        else if distance \<le> 0 \<or> time \<le> 0 then (Inl InvalidWeight, g)
        else (Inr (), g\<lparr>edges := dict_set (edges g) key (new_edge u v distance time accessible)\<rparr>))"

definition delete_edge :: "graph \<Rightarrow> name \<Rightarrow> name \<Rightarrow> (error + unit) \<times> graph" where
  "delete_edge g u v =
     (let key = sorted_pair u v in
      if \<not> dict_has (edges g) key then (Inl (EdgeNotFound u v), g)
      else case dict_del (edges g) key of
             Inl e \<Rightarrow> (Inl e, g)
           | Inr es \<Rightarrow> (Inr (), g\<lparr>edges := es\<rparr>))"

text \<open>
  \<open>Graph.neighbors\<close>: one pass over the edge dict in its order; closed edges are skipped,
  non-accessible ones too in accessible-only mode; the other endpoint of the key is
  appended.
\<close>

fun neighbors_loop :: "(name \<times> name, edge) dict \<Rightarrow> name \<Rightarrow> bool \<Rightarrow> name list \<Rightarrow> name list" where
  "neighbors_loop [] nm accessible_only nbrs = nbrs"
| "neighbors_loop (((a, b), e) # rest) nm accessible_only nbrs =
     (if edge_closed e then neighbors_loop rest nm accessible_only nbrs
      else if accessible_only \<and> \<not> edge_accessible e then neighbors_loop rest nm accessible_only nbrs
      else if a = nm then neighbors_loop rest nm accessible_only (nbrs @ [b])
      else if b = nm then neighbors_loop rest nm accessible_only (nbrs @ [a])
      else neighbors_loop rest nm accessible_only nbrs)"

definition neighbors :: "graph \<Rightarrow> name \<Rightarrow> bool \<Rightarrow> name list" where
  "neighbors g nm accessible_only = neighbors_loop (edges g) nm accessible_only []"

definition get_edge :: "graph \<Rightarrow> name \<Rightarrow> name \<Rightarrow> edge option" where
  "get_edge g a b = dict_get (edges g) (sorted_pair a b)"

section \<open>The traversal engine (src/app.py, App._bfs, App._dfs, App._reconstruct_path)\<close>

text \<open>
  The parent map is a Python dict from names to \<open>Optional[str]\<close>; its order is never
  observed, so it is a map. \<open>parent w = None\<close> says that \<open>w\<close> is no key,
  \<open>parent w = Some None\<close> that the key holds Python's \<open>None\<close>.
\<close>

type_synonym parent_map = "name \<Rightarrow> name option option"

text \<open>
  The test \<open>not e or e.closed or (accessible_only and not e.accessible)\<close> of both
  traversals; an \<open>Edge\<close> object is always truthy, so \<open>not e\<close> holds for \<open>None\<close> only.
\<close>

definition skip_edge :: "edge option \<Rightarrow> bool \<Rightarrow> bool" where
  "skip_edge e accessible_only =
     (case e of None \<Rightarrow> True
      | Some e' \<Rightarrow> edge_closed e' \<or> (accessible_only \<and> \<not> edge_accessible e'))"

subsection \<open>Breadth-first search\<close>

text \<open>The \<open>for w in self.graph.neighbors(u, accessible_only)\<close> loop of \<open>_bfs\<close>.\<close>

fun bfs_scan ::
  "graph \<Rightarrow> bool \<Rightarrow> name \<Rightarrow> name list \<Rightarrow> name list \<times> parent_map \<times> name set
     \<Rightarrow> name list \<times> parent_map \<times> name set" where
  "bfs_scan g accessible_only u [] st = st"
| "bfs_scan g accessible_only u (w # ws) (q, parent, visited) =
     (if skip_edge (get_edge g u w) accessible_only
      then bfs_scan g accessible_only u ws (q, parent, visited)
      else if w \<notin> visited
      then bfs_scan g accessible_only u ws (q @ [w], parent(w \<mapsto> Some u), insert w visited)
      else bfs_scan g accessible_only u ws (q, parent, visited))"

text \<open>All names that occur in a key of the edge dict.\<close>

definition edge_names :: "graph \<Rightarrow> name set" where
  "edge_names g = (fst ` fst ` set (edges g)) \<union> (snd ` fst ` set (edges g))"

text \<open>What one entry of the edge dict adds to the neighbour list of \<open>nm\<close>.\<close>

definition nbr_of :: "name \<Rightarrow> bool \<Rightarrow> (name \<times> name) \<times> edge \<Rightarrow> name list" where
  "nbr_of nm ao ke =
     (if edge_closed (snd ke) \<or> (ao \<and> \<not> edge_accessible (snd ke)) then []
      else if fst (fst ke) = nm then [snd (fst ke)]
      else if snd (fst ke) = nm then [fst (fst ke)] else [])"

lemma neighbors_loop_eq:
  "neighbors_loop es nm ao nbrs = nbrs @ concat (map (nbr_of nm ao) es)"
  by (induction es nm ao nbrs rule: neighbors_loop.induct) (simp_all add: nbr_of_def)

lemma neighbors_eq: "neighbors g nm ao = concat (map (nbr_of nm ao) (edges g))"
  by (simp add: neighbors_def neighbors_loop_eq)

lemma neighbors_subset: "set (neighbors g nm ao) \<subseteq> edge_names g"
  by (auto simp: neighbors_eq edge_names_def nbr_of_def image_iff split: if_splits)

lemma finite_edge_names: "finite (edge_names g)"
  by (simp add: edge_names_def)

lemma bfs_scan_measure:
  assumes "finite V" "set ws \<subseteq> V" "bfs_scan g ao u ws (q, parent, visited) = (q', parent', visited')"
  shows "length q' + card (V - visited') = length q + card (V - visited)"
  using assms
proof (induction ws arbitrary: q parent visited)
  case Nil
  then show ?case by simp
next
  case (Cons w ws)
  show ?case
  proof (cases "\<not> skip_edge (get_edge g u w) ao \<and> w \<notin> visited")
    case True
    with Cons.prems have
      "bfs_scan g ao u ws (q @ [w], parent(w \<mapsto> Some u), insert w visited) = (q', parent', visited')"
      by simp
    with Cons.IH [OF Cons.prems(1)] Cons.prems(2) have
      "length q' + card (V - visited') = length (q @ [w]) + card (V - insert w visited)"
      by simp
    moreover have "w \<in> V - visited" using True Cons.prems(2) by simp
    then have "card (V - visited) = Suc (card (V - insert w visited))"
      using Cons.prems(1)
      by (metis Diff_insert card_Suc_Diff1 finite_Diff)
    ultimately show ?thesis by simp
  next
    case False
    with Cons.prems have "bfs_scan g ao u ws (q, parent, visited) = (q', parent', visited')"
      by (auto split: if_splits)
    with Cons.IH [OF Cons.prems(1)] Cons.prems(2) show ?thesis by simp
  qed
qed

text \<open>
  The \<open>while q\<close> loop of \<open>_bfs\<close>; \<open>break\<close> leaves it when the goal is dequeued. It returns
  \<open>visited_order\<close> and the parent map.
\<close>

function bfs_loop ::
  "graph \<Rightarrow> name \<Rightarrow> bool \<Rightarrow> name list \<Rightarrow> parent_map \<Rightarrow> name set \<Rightarrow> name list
     \<Rightarrow> name list \<times> parent_map" where
  "bfs_loop g goal accessible_only [] parent visited visited_order = (visited_order, parent)"
| "bfs_loop g goal accessible_only (u # q) parent visited visited_order =
     (if u = goal then (visited_order @ [u], parent)
      else case bfs_scan g accessible_only u (neighbors g u accessible_only) (q, parent, visited) of
             (q', parent', visited') \<Rightarrow>
               bfs_loop g goal accessible_only q' parent' visited' (visited_order @ [u]))"
  by pat_completeness auto
termination
proof (relation "measure (\<lambda>(g, goal, ao, q, parent, visited, order).
                    length q + card (edge_names g - visited))", goal_cases)
  case 1
  show ?case by simp
next
  case (2 g goal ao u q parent visited order q' y parent' visited')
  then have "bfs_scan g ao u (neighbors g u ao) (q, parent, visited) = (q', parent', visited')"
    by simp
  from bfs_scan_measure [OF finite_edge_names neighbors_subset this]
  show ?case by simp
qed

text \<open>
  The \<open>while parent[cur] is not None\<close> loop of \<open>_reconstruct_path\<close>. \<open>parent[cur]\<close> raises
  \<open>KeyError\<close> on a missing key, and the loop does not end on a cyclic parent map: the
  result is \<open>None\<close> when it runs forever.
\<close>

partial_function (option) walk_back ::
  "parent_map \<Rightarrow> name \<Rightarrow> name list \<Rightarrow> (error + name list) option" where
  "walk_back parent cur path =
     (case parent cur of
        None \<Rightarrow> Some (Inl KeyError)
      | Some None \<Rightarrow> Some (Inr path)
      | Some (Some p) \<Rightarrow> walk_back parent p (path @ [p]))"

definition reconstruct_path ::
  "parent_map \<Rightarrow> name \<Rightarrow> name \<Rightarrow> (error + name list) option" where
  "reconstruct_path parent start goal =
     (if parent goal = None then Some (Inr [])
      else case walk_back parent goal [goal] of
             None \<Rightarrow> None
           | Some (Inl e) \<Rightarrow> Some (Inl e)
           | Some (Inr path) \<Rightarrow>
               Some (Inr (if rev path \<noteq> [] \<and> hd (rev path) = start then rev path else [])))"

text \<open>\<open>_bfs\<close> returns the pair \<open>(visited_order, path)\<close>.\<close>

definition bfs ::
  "graph \<Rightarrow> name \<Rightarrow> name \<Rightarrow> bool \<Rightarrow> (error + name list \<times> name list) option" where
  "bfs g start goal accessible_only =
     (case bfs_loop g goal accessible_only [start] [start \<mapsto> None] {start} [] of
        (visited_order, parent) \<Rightarrow>
          (case reconstruct_path parent start goal of
             None \<Rightarrow> None
           | Some (Inl e) \<Rightarrow> Some (Inl e)
           | Some (Inr path) \<Rightarrow> Some (Inr (visited_order, path))))"

subsection \<open>Depth-first search\<close>

text \<open>
  The variables of \<open>_dfs\<close> that its inner function \<open>rec\<close> reads and writes: the set
  \<open>visited\<close>, the list \<open>visited_order\<close>, the dict \<open>parent\<close> and the nonlocal flag \<open>found\<close>.
\<close>

record dfs_state =
  ds_visited :: "name set"
  ds_order :: "name list"
  ds_parent :: parent_map
  ds_found :: bool

text \<open>
  \<open>dfs_rec\<close> is the inner function \<open>rec(u)\<close>, \<open>dfs_for\<close> its loop over the neighbours of
  \<open>u\<close>, on a stack without bound (the recursion limit is modelled further below). After the goal is found the loop still writes \<open>parent[w] = u\<close> for every unvisited
  neighbour, and the call \<open>rec(w)\<close> returns at once.
\<close>

function dfs_rec :: "graph \<Rightarrow> name \<Rightarrow> bool \<Rightarrow> name \<Rightarrow> dfs_state \<Rightarrow> dfs_state"
  and dfs_for :: "graph \<Rightarrow> name \<Rightarrow> bool \<Rightarrow> name \<Rightarrow> name list \<Rightarrow> dfs_state \<Rightarrow> dfs_state" where
  "dfs_rec g goal accessible_only u st =
     (if ds_found st then st
      else let st1 = st\<lparr>ds_visited := insert u (ds_visited st), ds_order := ds_order st @ [u]\<rparr> in
        if u = goal then st1\<lparr>ds_found := True\<rparr>
        else dfs_for g goal accessible_only u (neighbors g u accessible_only) st1)"
| "dfs_for g goal accessible_only u [] st = st"
| "dfs_for g goal accessible_only u (w # ws) st =
     (if skip_edge (get_edge g u w) accessible_only then dfs_for g goal accessible_only u ws st
      else if w \<notin> ds_visited st
      then dfs_for g goal accessible_only u ws
             (dfs_rec g goal accessible_only w (st\<lparr>ds_parent := (ds_parent st)(w \<mapsto> Some u)\<rparr>))
      else dfs_for g goal accessible_only u ws st)"
  by pat_completeness auto

lemma dfs_visited_mono:
  "dfs_rec_dfs_for_dom (Inl (g, goal, ao, u, st)) \<Longrightarrow> ds_visited st \<subseteq> ds_visited (dfs_rec g goal ao u st)"
  "dfs_rec_dfs_for_dom (Inr (g, goal, ao, u, ws, st)) \<Longrightarrow> ds_visited st \<subseteq> ds_visited (dfs_for g goal ao u ws st)"
proof (induction g goal ao u st and g goal ao u ws st rule: dfs_rec_dfs_for.pinduct)
  case (1 g goal ao u st)
  then show ?case by (auto simp: dfs_rec.psimps Let_def)
next
  case (2 g goal ao u st)
  then show ?case by (simp add: dfs_for.psimps)
next
  case (3 g goal ao u w ws st)
  then show ?case by (auto simp: dfs_for.psimps split: if_splits)
qed

lemma dfs_card_le:
  assumes "V \<subseteq> V'" "finite V'" "vis \<subseteq> vis'"
  shows "card (V - vis') \<le> card (V' - vis)"
  by (rule card_mono) (use assms in auto)

termination dfs_rec
proof (relation "inv_image (less_than <*lex*> less_than <*lex*> less_than)
   (\<lambda>x. case x of
      Inl (g, goal, ao, u, st) \<Rightarrow> (card (edge_names g - insert u (ds_visited st)), 1::nat, 0::nat)
    | Inr (g, goal, ao, u, ws, st) \<Rightarrow> (card ((edge_names g \<union> set ws) - ds_visited st), 0, length ws))", goal_cases)
  case 1
  show ?case by (intro wf_inv_image wf_lex_prod wf_less_than)
next
  case (2 g goal ao u st st1)
  have "edge_names g \<union> set (neighbors g u ao) = edge_names g"
    using neighbors_subset [of g u ao] by auto
  with 2 show ?case by simp
next
  case (3 g goal ao u w ws st)
  have "card (edge_names g \<union> set ws - ds_visited st)
          \<le> card (edge_names g \<union> set (w # ws) - ds_visited st)"
    by (rule dfs_card_le) (auto simp: finite_edge_names)
  then show ?case by (auto simp: le_less)
next
  case (4 g goal ao u w ws st)
  have "edge_names g - insert w (ds_visited st)
          \<subset> edge_names g \<union> set (w # ws) - ds_visited st"
    using 4 by auto
  then have "card (edge_names g - insert w (ds_visited st))
          < card (edge_names g \<union> set (w # ws) - ds_visited st)"
    by (intro psubset_card_mono) (auto simp: finite_edge_names)
  then show ?case by simp
next
  case (5 g goal ao u w ws st)
  let ?st' = "st\<lparr>ds_parent := (ds_parent st)(w \<mapsto> Some u)\<rparr>"
  from 5 have "ds_visited ?st' \<subseteq> ds_visited (dfs_rec g goal ao w ?st')"
    by (intro dfs_visited_mono(1))
  then have "card (edge_names g \<union> set ws - ds_visited (dfs_rec g goal ao w ?st'))
          \<le> card (edge_names g \<union> set (w # ws) - ds_visited st)"
    by (intro dfs_card_le) (auto simp: finite_edge_names)
  then show ?case by (auto simp: le_less)
next
  case (6 g goal ao u w ws st)
  have "card (edge_names g \<union> set ws - ds_visited st)
          \<le> card (edge_names g \<union> set (w # ws) - ds_visited st)"
    by (rule dfs_card_le) (auto simp: finite_edge_names)
  then show ?case by (auto simp: le_less)
qed

text \<open>\<open>_dfs\<close> returns the pair \<open>(visited_order, path)\<close>; the path is rebuilt only when \<open>found\<close>.\<close>

definition dfs ::
  "graph \<Rightarrow> name \<Rightarrow> name \<Rightarrow> bool \<Rightarrow> (error + name list \<times> name list) option" where
  "dfs g start goal accessible_only =
     (let st = dfs_rec g goal accessible_only start
                 \<lparr>ds_visited = {}, ds_order = [], ds_parent = [start \<mapsto> None], ds_found = False\<rparr>
      in if ds_found st
         then (case reconstruct_path (ds_parent st) start goal of
                 None \<Rightarrow> None
               | Some (Inl e) \<Rightarrow> Some (Inl e)
               | Some (Inr path) \<Rightarrow> Some (Inr (ds_order st, path)))
         else Some (Inr (ds_order st, [])))"

subsection \<open>Depth-first search under the recursion limit\<close>

text \<open>
  \<open>rec\<close> calls itself once for every node on the current branch, and the interpreter
  raises \<open>RecursionError\<close> when a call would exceed its recursion limit
  (\<open>sys.getrecursionlimit()\<close>, 1000 unless changed, and \<open>app.py\<close> never changes it).
  \<open>dfs_rec\<close> and \<open>dfs_for\<close> above are \<open>rec\<close> on a stack without bound. Here \<open>room\<close> is
  the number of frames that are still free: a call of \<open>rec\<close>, of \<open>Graph.neighbors\<close> or of
  \<open>Graph.get_edge\<close> needs one free frame, which it gives back when it returns. Nothing
  catches the error, so it ends \<open>_dfs\<close>.
\<close>

fun dfs_rec_lim ::
  "nat \<Rightarrow> graph \<Rightarrow> name \<Rightarrow> bool \<Rightarrow> name \<Rightarrow> dfs_state \<Rightarrow> error + dfs_state"
  and dfs_for_lim ::
  "nat \<Rightarrow> graph \<Rightarrow> name \<Rightarrow> bool \<Rightarrow> name \<Rightarrow> name list \<Rightarrow> dfs_state \<Rightarrow> error + dfs_state" where
  "dfs_rec_lim 0 g goal accessible_only u st = Inl RecursionError"
| "dfs_rec_lim (Suc room) g goal accessible_only u st =
     (if ds_found st then Inr st
      else let st1 = st\<lparr>ds_visited := insert u (ds_visited st), ds_order := ds_order st @ [u]\<rparr> in
        if u = goal then Inr (st1\<lparr>ds_found := True\<rparr>)
        else if room = 0 then Inl RecursionError
        else dfs_for_lim room g goal accessible_only u (neighbors g u accessible_only) st1)"
| "dfs_for_lim room g goal accessible_only u [] st = Inr st"
| "dfs_for_lim 0 g goal accessible_only u (w # ws) st = Inl RecursionError"
| "dfs_for_lim (Suc room) g goal accessible_only u (w # ws) st =
     (if skip_edge (get_edge g u w) accessible_only
      then dfs_for_lim (Suc room) g goal accessible_only u ws st
      else if w \<notin> ds_visited st
      then (case dfs_rec_lim (Suc room) g goal accessible_only w
                   (st\<lparr>ds_parent := (ds_parent st)(w \<mapsto> Some u)\<rparr>) of
              Inl e \<Rightarrow> Inl e
            | Inr st' \<Rightarrow> dfs_for_lim (Suc room) g goal accessible_only u ws st')
      else dfs_for_lim (Suc room) g goal accessible_only u ws st)"


text \<open>\<open>_dfs\<close> when \<open>room\<close> frames are free at its call of \<open>rec(start)\<close>.\<close>

definition dfs_lim ::
  "nat \<Rightarrow> graph \<Rightarrow> name \<Rightarrow> name \<Rightarrow> bool \<Rightarrow> (error + name list \<times> name list) option" where
  "dfs_lim room g start goal accessible_only =
     (case dfs_rec_lim room g goal accessible_only start
             \<lparr>ds_visited = {}, ds_order = [], ds_parent = [start \<mapsto> None], ds_found = False\<rparr> of
        Inl e \<Rightarrow> Some (Inl e)
      | Inr st \<Rightarrow>
          if ds_found st
          then (case reconstruct_path (ds_parent st) start goal of
                  None \<Rightarrow> None
                | Some (Inl e) \<Rightarrow> Some (Inl e)
                | Some (Inr path) \<Rightarrow> Some (Inr (ds_order st, path)))
          else Some (Inr (ds_order st, [])))"


subsection \<open>Path cost (App._print_result)\<close>

text \<open>
  The loop \<open>for i in range(len(path) - 1)\<close> that adds up \<open>e.distance\<close> and \<open>e.time\<close> of
  the edge between consecutive path nodes, when there is one.
\<close>

fun path_cost_loop :: "graph \<Rightarrow> name list \<Rightarrow> real \<Rightarrow> real \<Rightarrow> real \<times> real" where
  "path_cost_loop g (a # b # rest) total_dist total_time =
     (case get_edge g a b of
        None \<Rightarrow> path_cost_loop g (b # rest) total_dist total_time
      | Some e \<Rightarrow> path_cost_loop g (b # rest) (total_dist + edge_distance e) (total_time + edge_time e))"
| "path_cost_loop g path total_dist total_time = (total_dist, total_time)"

definition path_cost :: "graph \<Rightarrow> name list \<Rightarrow> real \<times> real" where
  "path_cost g path = path_cost_loop g path 0 0"

subsection \<open>Sequences of calls\<close>

text \<open>A call that raises ends the sequence: the later calls are not made.\<close>

definition and_then ::
  "(error + unit) \<times> graph \<Rightarrow> (graph \<Rightarrow> (error + unit) \<times> graph) \<Rightarrow> (error + unit) \<times> graph" where
  "and_then r f = (case fst r of Inl e \<Rightarrow> r | Inr _ \<Rightarrow> f (snd r))"

text \<open>
  The fixture of the concrete scenario: nodes A, B, C, D, then the edges A-B, B-C, A-C
  and C-D in this order. The positions of the nodes are arbitrary.
\<close>

definition fixture :: "(error + unit) \<times> graph" where
  "fixture =
     and_then (and_then (and_then (and_then (and_then (and_then (and_then
       (add_node empty_graph ''A'' 0 0)
       (\<lambda>g. add_node g ''B'' 10 0))
       (\<lambda>g. add_node g ''C'' 10 10))
       (\<lambda>g. add_node g ''D'' 20 10))
       (\<lambda>g. add_edge g ''A'' ''B'' 100 1 True))
       (\<lambda>g. add_edge g ''B'' ''C'' 100 1 True))
       (\<lambda>g. add_edge g ''A'' ''C'' 500 5 True))
       (\<lambda>g. add_edge g ''C'' ''D'' 50 1 False)"

text \<open>The model that the calls of the fixture build.\<close>

definition fixture_graph :: graph where
  "fixture_graph =
     \<lparr>nodes =
        [(''A'', \<lparr>node_name = ''A'', node_x = 0, node_y = 0, node_weight = 1,
                  node_canvas_id = None, node_label_id = None\<rparr>),
         (''B'', \<lparr>node_name = ''B'', node_x = 10, node_y = 0, node_weight = 1,
                  node_canvas_id = None, node_label_id = None\<rparr>),
         (''C'', \<lparr>node_name = ''C'', node_x = 10, node_y = 10, node_weight = 1,
                  node_canvas_id = None, node_label_id = None\<rparr>),
         (''D'', \<lparr>node_name = ''D'', node_x = 20, node_y = 10, node_weight = 1,
                  node_canvas_id = None, node_label_id = None\<rparr>)],
      edges =
        [((''A'', ''B''), \<lparr>edge_u = ''A'', edge_v = ''B'', edge_distance = 100, edge_time = 1,
                  edge_accessible = True, edge_closed = False,
                  edge_line_id = None, edge_label_id = None\<rparr>),
         ((''B'', ''C''), \<lparr>edge_u = ''B'', edge_v = ''C'', edge_distance = 100, edge_time = 1,
                  edge_accessible = True, edge_closed = False,
                  edge_line_id = None, edge_label_id = None\<rparr>),
         ((''A'', ''C''), \<lparr>edge_u = ''A'', edge_v = ''C'', edge_distance = 500, edge_time = 5,
                  edge_accessible = True, edge_closed = False,
                  edge_line_id = None, edge_label_id = None\<rparr>),
         ((''C'', ''D''), \<lparr>edge_u = ''C'', edge_v = ''D'', edge_distance = 50, edge_time = 1,
                  edge_accessible = False, edge_closed = False,
                  edge_line_id = None, edge_label_id = None\<rparr>)]\<rparr>"

text \<open>
  Two models with the same nodes and the same four edges A-B, A-C, B-D, C-D; they differ
  in the order in which the first two edges are added.
\<close>

definition diamond :: "(error + unit) \<times> graph" where
  "diamond =
     and_then (and_then (and_then (and_then (and_then (and_then (and_then
       (add_node empty_graph ''A'' 0 0)
       (\<lambda>g. add_node g ''B'' 10 0))
       (\<lambda>g. add_node g ''C'' 0 10))
       (\<lambda>g. add_node g ''D'' 10 10))
       (\<lambda>g. add_edge g ''A'' ''B'' 1 1 True))
       (\<lambda>g. add_edge g ''A'' ''C'' 1 1 True))
       (\<lambda>g. add_edge g ''B'' ''D'' 1 1 True))
       (\<lambda>g. add_edge g ''C'' ''D'' 1 1 True)"

definition diamond_swapped :: "(error + unit) \<times> graph" where
  "diamond_swapped =
     and_then (and_then (and_then (and_then (and_then (and_then (and_then
       (add_node empty_graph ''A'' 0 0)
       (\<lambda>g. add_node g ''B'' 10 0))
       (\<lambda>g. add_node g ''C'' 0 10))
       (\<lambda>g. add_node g ''D'' 10 10))
       (\<lambda>g. add_edge g ''A'' ''C'' 1 1 True))
       (\<lambda>g. add_edge g ''A'' ''B'' 1 1 True))
       (\<lambda>g. add_edge g ''B'' ''D'' 1 1 True))
       (\<lambda>g. add_edge g ''C'' ''D'' 1 1 True)"

text \<open>
  A model with the \<open>u\<close> and \<open>v\<close> fields of every edge overwritten by its key: two models
  with the same image agree in everything but the order in which the endpoints of an edge
  are stored.
\<close>

definition unoriented :: "graph \<Rightarrow> graph" where
  "unoriented g = g\<lparr>edges := map (\<lambda>(k, e). (k, e\<lparr>edge_u := fst k, edge_v := snd k\<rparr>)) (edges g)\<rparr>"

declare dfs_rec.simps [simp del]

section \<open>Routes and the invariants of the traversals\<close>

text \<open>
  An edge between \<open>x\<close> and \<open>y\<close> can be traversed when both traversals accept it: it
  exists, it is not closed, and it is accessible when the search is accessible-only.
\<close>

definition traversable :: "graph \<Rightarrow> bool \<Rightarrow> name \<Rightarrow> name \<Rightarrow> bool" where
  "traversable g accessible_only x y = (\<not> skip_edge (get_edge g x y) accessible_only)"

text \<open>A route from \<open>s\<close> to \<open>t\<close>: a list of nodes joined by edges that can be traversed.\<close>

definition is_route :: "graph \<Rightarrow> bool \<Rightarrow> name \<Rightarrow> name \<Rightarrow> name list \<Rightarrow> bool" where
  "is_route g accessible_only s t p =
     (p \<noteq> [] \<and> hd p = s \<and> last p = t \<and> successively (traversable g accessible_only) p)"

text \<open>The least number of edges of a route from \<open>s\<close> to \<open>v\<close>.\<close>

definition hops :: "graph \<Rightarrow> bool \<Rightarrow> name \<Rightarrow> name \<Rightarrow> nat" where
  "hops g ao s v = (LEAST n. \<exists>p. is_route g ao s v p \<and> length p = Suc n)"

text \<open>
  The list \<open>v, parent[v], parent[parent[v]], ...\<close> down to a node whose parent is \<open>None\<close>:
  what \<open>_reconstruct_path\<close> collects before it reverses.
\<close>

fun back_chain :: "parent_map \<Rightarrow> name list \<Rightarrow> bool" where
  "back_chain parent [] = False"
| "back_chain parent [r] = (parent r = Some None)"
| "back_chain parent (v # u # rest) = (parent v = Some (Some u) \<and> back_chain parent (u # rest))"


text \<open>
  A node \<open>v\<close> has a chain \<open>c\<close> when the parent pointers lead from \<open>v\<close> through visited
  nodes back to the start, each step over an edge that can be traversed.
\<close>

definition has_chain ::
  "graph \<Rightarrow> bool \<Rightarrow> name \<Rightarrow> parent_map \<Rightarrow> name set \<Rightarrow> name \<Rightarrow> name list \<Rightarrow> bool" where
  "has_chain g ao s parent visited v c =
     (back_chain parent (v # c) \<and> last (v # c) = s \<and> set c \<subseteq> visited
      \<and> successively (traversable g ao) (rev (v # c)))"

text \<open>
  The invariant of the \<open>while q\<close> loop of \<open>_bfs\<close>: the queue holds visited nodes once
  each, in the order of their distance from the start and at most two adjacent distances;
  the parent pointers of a visited node give a shortest route; every node that was
  dequeued has all its neighbours visited, every node not farther than the head of the
  queue is visited, and the goal has not been dequeued.
\<close>

definition bfs_inv ::
  "graph \<Rightarrow> bool \<Rightarrow> name \<Rightarrow> name \<Rightarrow> name list \<Rightarrow> parent_map \<Rightarrow> name set \<Rightarrow> name list \<Rightarrow> bool" where
  "bfs_inv g ao s goal q parent visited order =
     (distinct q \<and> set q \<subseteq> visited \<and> s \<in> visited
      \<and> (\<forall>w. parent w = None \<longleftrightarrow> w \<notin> visited)
      \<and> (\<forall>v\<in>visited. \<exists>c. has_chain g ao s parent visited v c \<and> length c = hops g ao s v)
      \<and> sorted (map (hops g ao s) q)
      \<and> (\<forall>x\<in>set q. hops g ao s x \<le> Suc (hops g ao s (hd q)))
      \<and> (\<forall>x\<in>visited - set q. \<forall>y. traversable g ao x y \<longrightarrow> y \<in> visited)
      \<and> (q \<noteq> [] \<longrightarrow>
           (\<forall>w. (\<exists>p. is_route g ao s w p) \<and> hops g ao s w \<le> hops g ao s (hd q) \<longrightarrow> w \<in> visited))
      \<and> (goal \<in> visited \<longrightarrow> goal \<in> set q)
      \<and> set order = visited - set q \<and> distinct order
      \<and> (if order = [] then q = [s] else hd order = s))"


text \<open>
  The invariant of \<open>_dfs\<close>: \<open>visited_order\<close> lists the visited set without repetition and
  starts with the start, \<open>found\<close> says that the goal is visited, the goal is then the
  last node visited, and every visited node has a chain of parent pointers.
\<close>

definition dfs_inv :: "graph \<Rightarrow> bool \<Rightarrow> name \<Rightarrow> name \<Rightarrow> dfs_state \<Rightarrow> bool" where
  "dfs_inv g ao s goal st =
     (set (ds_order st) = ds_visited st \<and> distinct (ds_order st)
      \<and> (ds_order st \<noteq> [] \<longrightarrow> hd (ds_order st) = s)
      \<and> (ds_found st \<longleftrightarrow> goal \<in> ds_visited st)
      \<and> (ds_found st \<longrightarrow> last (ds_order st) = goal)
      \<and> (\<forall>v\<in>ds_visited st. \<exists>c. has_chain g ao s (ds_parent st) (ds_visited st) v c))"

text \<open>Every node visited between \<open>V\<close> and \<open>W\<close> has all its neighbours in \<open>W\<close>.\<close>

definition dfs_closed :: "graph \<Rightarrow> bool \<Rightarrow> name set \<Rightarrow> name set \<Rightarrow> bool" where
  "dfs_closed g ao V W = (\<forall>x\<in>W - V. \<forall>y. traversable g ao x y \<longrightarrow> y \<in> W)"


text \<open>
  A long corridor: the nodes \<open>a\<close>, \<open>aa\<close>, \<open>aaa\<close>, ... (\<open>n + 1\<close> of them) and a node \<open>goal\<close>,
  and an edge between each corridor node and the next. No edge leads to \<open>goal\<close>.
  \<open>chain_calls\<close> is the sequence of \<open>add_node\<close> and \<open>add_edge\<close> calls that builds it.
\<close>

definition chain_name :: "nat \<Rightarrow> name" where
  "chain_name i = replicate (Suc i) CHR ''a''"

definition chain_graph :: "nat \<Rightarrow> graph" where
  "chain_graph n =
     \<lparr>nodes = map (\<lambda>i. (chain_name i, new_node (chain_name i) (int i) 0)) [0..<Suc n]
              @ [(''goal'', new_node ''goal'' 0 1)],
      edges = map (\<lambda>i. ((chain_name i, chain_name (Suc i)),
                         new_edge (chain_name i) (chain_name (Suc i)) 1 1 True)) [0..<n]\<rparr>"



section \<open>The traversals of the specification\<close>

text \<open>
  The traversable neighbours of \<open>u\<close> in the order of the edge dict: the entries that are
  open (and accessible, in accessible-only mode) and incident to \<open>u\<close>, in their order, each
  mapped to its other endpoint.
\<close>

definition in_insertion_order :: "graph \<Rightarrow> bool \<Rightarrow> name \<Rightarrow> name list" where
  "in_insertion_order g accessible_only u =
     filter (traversable g accessible_only u)
       (map (\<lambda>((a, b), e). if a = u then b else a)
          (filter (\<lambda>((a, b), e). \<not> edge_closed e \<and> (accessible_only \<longrightarrow> edge_accessible e)
                                   \<and> (a = u \<or> b = u)) (edges g)))"

text \<open>
  The traversals as the specification words them (section 4.2), over a given enumeration
  \<open>nb\<close> of the neighbours of each node. BFS: remove the head \<open>u\<close> of the frontier, append it
  to \<open>visited_order\<close>, stop when it is the goal; otherwise, for each neighbour \<open>w\<close> of \<open>u\<close>
  in the order of \<open>nb u\<close> that is not visited, mark it, record \<open>parent[w] = u\<close> and append
  it to the tail of the frontier.
\<close>

definition spec_expand ::
  "name \<Rightarrow> name list \<Rightarrow> name list \<times> parent_map \<times> name set \<Rightarrow> name list \<times> parent_map \<times> name set" where
  "spec_expand u ws =
     fold (\<lambda>w (frontier, parent, visited).
             if w \<in> visited then (frontier, parent, visited)
             else (frontier @ [w], parent(w \<mapsto> Some u), insert w visited)) ws"

partial_function (option) spec_bfs_loop ::
  "(name \<Rightarrow> name list) \<Rightarrow> name \<Rightarrow> name list \<Rightarrow> parent_map \<Rightarrow> name set \<Rightarrow> name list
     \<Rightarrow> (name list \<times> parent_map) option" where
  "spec_bfs_loop nb goal frontier parent visited visited_order =
     (case frontier of
        [] \<Rightarrow> Some (visited_order, parent)
      | u # rest \<Rightarrow>
          if u = goal then Some (visited_order @ [u], parent)
          else spec_bfs_loop nb goal
                 (fst (spec_expand u (nb u) (rest, parent, visited)))
                 (fst (snd (spec_expand u (nb u) (rest, parent, visited))))
                 (snd (snd (spec_expand u (nb u) (rest, parent, visited))))
                 (visited_order @ [u]))"

definition spec_bfs ::
  "(name \<Rightarrow> name list) \<Rightarrow> name \<Rightarrow> name \<Rightarrow> (error + name list \<times> name list) option" where
  "spec_bfs nb start goal =
     (case spec_bfs_loop nb goal [start] [start \<mapsto> None] {start} [] of
        None \<Rightarrow> None
      | Some (visited_order, parent) \<Rightarrow>
          (case reconstruct_path parent start goal of
             None \<Rightarrow> None
           | Some (Inl e) \<Rightarrow> Some (Inl e)
           | Some (Inr path) \<Rightarrow> Some (Inr (visited_order, path))))"

text \<open>
  DFS with an explicit stack of frames \<open>(u, ws)\<close>, where \<open>ws\<close> are the neighbours of \<open>u\<close>
  still to be tried, in the order of \<open>nb u\<close>: the first unvisited one is visited with parent
  \<open>u\<close> and gets a frame of its own; the search stops as soon as the goal is visited.
\<close>

definition spec_visit :: "name \<Rightarrow> name \<Rightarrow> dfs_state \<Rightarrow> dfs_state" where
  "spec_visit w u st =
     st\<lparr>ds_visited := insert w (ds_visited st), ds_order := ds_order st @ [w],
        ds_parent := (ds_parent st)(w \<mapsto> Some u)\<rparr>"

partial_function (option) spec_dfs_loop ::
  "(name \<Rightarrow> name list) \<Rightarrow> name \<Rightarrow> (name \<times> name list) list \<Rightarrow> dfs_state \<Rightarrow> dfs_state option" where
  "spec_dfs_loop nb goal frames st =
     (case frames of
        [] \<Rightarrow> Some st
      | (u, ws) # rest \<Rightarrow>
          (case ws of
             [] \<Rightarrow> spec_dfs_loop nb goal rest st
           | w # ws' \<Rightarrow>
               if w \<in> ds_visited st then spec_dfs_loop nb goal ((u, ws') # rest) st
               else if w = goal then Some ((spec_visit w u st)\<lparr>ds_found := True\<rparr>)
               else spec_dfs_loop nb goal ((w, nb w) # (u, ws') # rest) (spec_visit w u st)))"

definition spec_dfs ::
  "(name \<Rightarrow> name list) \<Rightarrow> name \<Rightarrow> name \<Rightarrow> (error + name list \<times> name list) option" where
  "spec_dfs nb start goal =
     (let st0 = \<lparr>ds_visited = {start}, ds_order = [start], ds_parent = [start \<mapsto> None],
                 ds_found = False\<rparr>
      in case (if start = goal then Some (st0\<lparr>ds_found := True\<rparr>)
               else spec_dfs_loop nb goal [(start, nb start)] st0) of
           None \<Rightarrow> None
         | Some st \<Rightarrow>
             if ds_found st
             then (case reconstruct_path (ds_parent st) start goal of
                     None \<Rightarrow> None
                   | Some (Inl e) \<Rightarrow> Some (Inl e)
                   | Some (Inr path) \<Rightarrow> Some (Inr (ds_order st, path)))
             else Some (Inr (ds_order st, [])))"


text \<open>Two DFS states that differ at most in the parent entries of unvisited nodes.\<close>

definition same_upto :: "dfs_state \<Rightarrow> dfs_state \<Rightarrow> bool" where
  "same_upto sp st =
     (ds_visited sp = ds_visited st \<and> ds_order sp = ds_order st \<and> ds_found sp = ds_found st
      \<and> (\<forall>v\<in>ds_visited st. ds_parent sp v = ds_parent st v))"


declare walk_back.simps [code]

section \<open>Properties of the network model\<close>

lemma fixture_eq: "fixture = (Inr (), fixture_graph)"
  by (simp add: fixture_def fixture_graph_def and_then_def add_node_def add_edge_def
      new_node_def new_edge_def
      empty_graph_def dict_has_def dict_set_def strip_def py_isspace_def sorted_pair_def)

lemma sorted_pair_commute: "sorted_pair u v = sorted_pair v u"
  by (auto simp: sorted_pair_def)

lemma get_edge_commute: "get_edge g a b = get_edge g b a"
  by (simp add: get_edge_def sorted_pair_commute [of a b])

lemma dict_has_iff: "dict_has d k \<longleftrightarrow> k \<in> fst ` set d"
  by (simp add: dict_has_def map_of_eq_None_iff)

lemma del_keys_filter:
  "distinct ks \<Longrightarrow> set ks \<subseteq> fst ` set d \<Longrightarrow>
   del_keys d ks = (Inr (), filter (\<lambda>(k, v). k \<notin> set ks) d)"
proof (induction ks arbitrary: d)
  case Nil
  then show ?case by simp
next
  case (Cons k ks)
  let ?d' = "filter (\<lambda>(k', v'). k' \<noteq> k) d"
  from Cons.prems have has: "dict_has d k" by (simp add: dict_has_iff)
  from Cons.prems have "set ks \<subseteq> fst ` set ?d'" by force
  with Cons.IH [of ?d'] Cons.prems(1)
  have "del_keys ?d' ks = (Inr (), filter (\<lambda>(k, v). k \<notin> set ks) ?d')" by simp
  moreover have "filter (\<lambda>(k, v). k \<notin> set ks) ?d' = filter (\<lambda>(k', v). k' \<notin> set (k # ks)) d"
    by (auto intro: filter_cong)
  ultimately show ?case using has by (simp add: dict_del_def)
qed

lemma delete_node_ok:
  assumes "dict_ok (edges g)" "dict_has (nodes g) nm"
  shows "delete_node g nm =
           (Inr (length (filter (\<lambda>(k, e). in_key nm k) (edges g))),
            \<lparr>nodes = filter (\<lambda>(k, n). k \<noteq> nm) (nodes g),
             edges = filter (\<lambda>(k, e). \<not> in_key nm k) (edges g)\<rparr>)"
proof -
  let ?ks = "filter (in_key nm) (map fst (edges g))"
  have "distinct ?ks" using assms(1) by (simp add: dict_ok_def)
  moreover have "set ?ks \<subseteq> fst ` set (edges g)" by auto
  ultimately have "del_keys (edges g) ?ks = (Inr (), filter (\<lambda>(k, v). k \<notin> set ?ks) (edges g))"
    by (rule del_keys_filter)
  moreover have "filter (\<lambda>(k, v). k \<notin> set ?ks) (edges g) = filter (\<lambda>(k, e). \<not> in_key nm k) (edges g)"
    by (rule filter_cong) (auto simp: image_iff)
  moreover have "length ?ks = length (filter (\<lambda>(k, e). in_key nm k) (edges g))"
    by (simp add: filter_map comp_def case_prod_unfold)
  ultimately show ?thesis using assms(2)
    by (simp add: delete_node_def dict_del_def)
qed


lemma add_edge_ok:
  assumes "u \<noteq> v" "dict_has (nodes g) u" "dict_has (nodes g) v"
    "\<not> dict_has (edges g) (sorted_pair u v)" "0 < d" "0 < t"
  shows "add_edge g u v d t a =
           (Inr (), g\<lparr>edges := edges g @ [(sorted_pair u v, new_edge u v d t a)]\<rparr>)"
  using assms by (simp add: add_edge_def dict_set_def Let_def)

lemma add_edge_succeeds_iff:
  "fst (add_edge g u v d t a) = Inr () \<longleftrightarrow>
     u \<noteq> v \<and> dict_has (nodes g) u \<and> dict_has (nodes g) v
     \<and> \<not> dict_has (edges g) (sorted_pair u v) \<and> 0 < d \<and> 0 < t"
  by (auto simp: add_edge_def Let_def)

text \<open>
  Claim C4. \<open>add_edge\<close> fails on a self-loop, on a missing endpoint, on an existing edge
  for the normalized pair and on a distance or time that is not positive; in every other
  case it returns normally, leaves the nodes alone and appends exactly one entry to the
  edge dict, under the normalized pair, that carries the given distance, time and
  accessible flag with \<open>closed = False\<close>; \<open>get_edge\<close> then finds that edge.
\<close>

theorem add_edge_contract:
  "(u = v \<longrightarrow> add_edge g u v d t a = (Inl SelfLoop, g))
   \<and> (\<not> dict_has (nodes g) u \<or> \<not> dict_has (nodes g) v \<longrightarrow> isl (fst (add_edge g u v d t a)))
   \<and> (dict_has (edges g) (sorted_pair u v) \<longrightarrow> isl (fst (add_edge g u v d t a)))
   \<and> (d \<le> 0 \<or> t \<le> 0 \<longrightarrow> isl (fst (add_edge g u v d t a)))
   \<and> (u \<noteq> v \<and> dict_has (nodes g) u \<and> dict_has (nodes g) v
        \<and> \<not> dict_has (edges g) (sorted_pair u v) \<and> 0 < d \<and> 0 < t \<longrightarrow>
        fst (add_edge g u v d t a) = Inr ()
        \<and> nodes (snd (add_edge g u v d t a)) = nodes g
        \<and> edges (snd (add_edge g u v d t a))
            = edges g @ [(sorted_pair u v,
                 \<lparr>edge_u = u, edge_v = v, edge_distance = d, edge_time = t,
                  edge_accessible = a, edge_closed = False,
                  edge_line_id = None, edge_label_id = None\<rparr>)]
        \<and> get_edge (snd (add_edge g u v d t a)) u v
            = Some \<lparr>edge_u = u, edge_v = v, edge_distance = d, edge_time = t,
                  edge_accessible = a, edge_closed = False,
                  edge_line_id = None, edge_label_id = None\<rparr>)"
proof (intro conjI impI)
  assume "u = v"
  then show "add_edge g u v d t a = (Inl SelfLoop, g)" by (simp add: add_edge_def)
next
  assume "\<not> dict_has (nodes g) u \<or> \<not> dict_has (nodes g) v"
  then show "isl (fst (add_edge g u v d t a))" by (auto simp: add_edge_def)
next
  assume "dict_has (edges g) (sorted_pair u v)"
  then show "isl (fst (add_edge g u v d t a))" by (auto simp: add_edge_def)
next
  assume "d \<le> 0 \<or> t \<le> 0"
  then show "isl (fst (add_edge g u v d t a))" by (auto simp: add_edge_def Let_def)
next
  assume ok: "u \<noteq> v \<and> dict_has (nodes g) u \<and> dict_has (nodes g) v
        \<and> \<not> dict_has (edges g) (sorted_pair u v) \<and> 0 < d \<and> 0 < t"
  then have eq: "add_edge g u v d t a =
           (Inr (), g\<lparr>edges := edges g @ [(sorted_pair u v, new_edge u v d t a)]\<rparr>)"
    by (intro add_edge_ok) simp_all
  show "fst (add_edge g u v d t a) = Inr ()" by (simp add: eq)
  show "nodes (snd (add_edge g u v d t a)) = nodes g" by (simp add: eq)
  show "edges (snd (add_edge g u v d t a))
            = edges g @ [(sorted_pair u v,
                 \<lparr>edge_u = u, edge_v = v, edge_distance = d, edge_time = t,
                  edge_accessible = a, edge_closed = False,
                  edge_line_id = None, edge_label_id = None\<rparr>)]"
    by (simp add: eq new_edge_def)
  from ok have "map_of (edges g) (sorted_pair u v) = None" by (simp add: dict_has_def)
  then show "get_edge (snd (add_edge g u v d t a)) u v
            = Some \<lparr>edge_u = u, edge_v = v, edge_distance = d, edge_time = t,
                  edge_accessible = a, edge_closed = False,
                  edge_line_id = None, edge_label_id = None\<rparr>"
    by (simp add: eq get_edge_def dict_get_def new_edge_def map_add_def)
qed

lemma fixture_has:
  "dict_has (nodes fixture_graph) ''A''" "dict_has (nodes fixture_graph) ''D''"
  "dict_has (nodes fixture_graph) ''C''"
  "\<not> dict_has (nodes fixture_graph) ''E''"
  "dict_has (edges fixture_graph) (''A'', ''B'')"
  "\<not> dict_has (edges fixture_graph) (''A'', ''D'')"
  by (simp_all add: fixture_graph_def dict_has_def)

theorem add_edge_contract_witness:
  "add_edge fixture_graph ''A'' ''A'' 5 1 True = (Inl SelfLoop, fixture_graph)
   \<and> isl (fst (add_edge fixture_graph ''A'' ''E'' 5 1 True))
   \<and> isl (fst (add_edge fixture_graph ''B'' ''A'' 5 1 True))
   \<and> isl (fst (add_edge fixture_graph ''D'' ''A'' 0 1 True))
   \<and> fst (add_edge fixture_graph ''D'' ''A'' 70 2 True) = Inr ()
   \<and> get_edge (snd (add_edge fixture_graph ''D'' ''A'' 70 2 True)) ''D'' ''A''
       = Some \<lparr>edge_u = ''D'', edge_v = ''A'', edge_distance = 70, edge_time = 2,
                  edge_accessible = True, edge_closed = False,
                  edge_line_id = None, edge_label_id = None\<rparr>"
  using add_edge_contract [of "''A''" "''A''" fixture_graph 5 1 True]
    add_edge_contract [of "''A''" "''E''" fixture_graph 5 1 True]
    add_edge_contract [of "''B''" "''A''" fixture_graph 5 1 True]
    add_edge_contract [of "''D''" "''A''" fixture_graph 0 1 True]
    add_edge_contract [of "''D''" "''A''" fixture_graph 70 2 True]
  by (simp add: fixture_has sorted_pair_def)

lemma fixture_dict_ok: "dict_ok (edges fixture_graph)"
  by (simp add: dict_ok_def fixture_graph_def)

lemma fixture_uv:
  "\<forall>(k, e) \<in> set (edges fixture_graph). in_key (edge_u e) k \<and> in_key (edge_v e) k"
  by (simp add: fixture_graph_def in_key_def)

text \<open>
  Claim C5. On a model whose edge dict holds every key once, \<open>delete_node\<close> of an existing
  name returns the number of edges whose key mentions the name, removes that node and
  exactly those edges, and keeps every other node and edge as it was and in its place;
  afterwards the name is no node and no key mentions it (nor does the \<open>u\<close> or \<open>v\<close> field
  of an edge, when these fields agree with the keys). On a name that is no node it
  raises the not-found error and the model is the one before the call.
\<close>

theorem delete_node_contract:
  assumes "dict_ok (edges g)"
  shows "(dict_has (nodes g) nm \<longrightarrow>
            fst (delete_node g nm) = Inr (length (filter (\<lambda>(k, e). in_key nm k) (edges g)))
          \<and> nodes (snd (delete_node g nm)) = filter (\<lambda>(k, n). k \<noteq> nm) (nodes g)
          \<and> edges (snd (delete_node g nm)) = filter (\<lambda>(k, e). \<not> in_key nm k) (edges g)
          \<and> \<not> dict_has (nodes (snd (delete_node g nm))) nm
          \<and> (\<forall>(k, e) \<in> set (edges (snd (delete_node g nm))). nm \<noteq> fst k \<and> nm \<noteq> snd k)
          \<and> ((\<forall>(k, e) \<in> set (edges g). in_key (edge_u e) k \<and> in_key (edge_v e) k) \<longrightarrow>
              (\<forall>(k, e) \<in> set (edges (snd (delete_node g nm))). edge_u e \<noteq> nm \<and> edge_v e \<noteq> nm)))
       \<and> (\<not> dict_has (nodes g) nm \<longrightarrow> delete_node g nm = (Inl (NodeNotFound nm), g))"
proof (intro conjI impI)
  assume "\<not> dict_has (nodes g) nm"
  then show "delete_node g nm = (Inl (NodeNotFound nm), g)" by (simp add: delete_node_def)
next
  assume has: "dict_has (nodes g) nm"
  note eq = delete_node_ok [OF assms has]
  show "fst (delete_node g nm) = Inr (length (filter (\<lambda>(k, e). in_key nm k) (edges g)))"
    by (simp add: eq)
  show "nodes (snd (delete_node g nm)) = filter (\<lambda>(k, n). k \<noteq> nm) (nodes g)"
    by (simp add: eq)
  show "edges (snd (delete_node g nm)) = filter (\<lambda>(k, e). \<not> in_key nm k) (edges g)"
    by (simp add: eq)
  show "\<not> dict_has (nodes (snd (delete_node g nm))) nm"
    by (auto simp: eq dict_has_iff)
  show "\<forall>(k, e) \<in> set (edges (snd (delete_node g nm))). nm \<noteq> fst k \<and> nm \<noteq> snd k"
    by (auto simp: eq in_key_def)
next
  assume has: "dict_has (nodes g) nm"
    and uv: "\<forall>(k, e) \<in> set (edges g). in_key (edge_u e) k \<and> in_key (edge_v e) k"
  note eq = delete_node_ok [OF assms has]
  show "\<forall>(k, e) \<in> set (edges (snd (delete_node g nm))). edge_u e \<noteq> nm \<and> edge_v e \<noteq> nm"
    using uv by (auto simp: eq)
qed

theorem delete_node_contract_witness:
  "fst (delete_node fixture_graph ''C'') = Inr 3
   \<and> map fst (nodes (snd (delete_node fixture_graph ''C''))) = [''A'', ''B'', ''D'']
   \<and> map fst (edges (snd (delete_node fixture_graph ''C''))) = [(''A'', ''B'')]
   \<and> delete_node fixture_graph ''E'' = (Inl (NodeNotFound ''E''), fixture_graph)"
proof -
  have hC: "dict_has (nodes fixture_graph) ''C''" and hE: "\<not> dict_has (nodes fixture_graph) ''E''"
    by (simp_all add: fixture_has)
  note c = delete_node_contract [OF fixture_dict_ok, of "''C''"]
  note e = delete_node_contract [OF fixture_dict_ok, of "''E''"]
  from c hC have
    "fst (delete_node fixture_graph ''C'')
       = Inr (length (filter (\<lambda>(k, e). in_key ''C'' k) (edges fixture_graph)))"
    "nodes (snd (delete_node fixture_graph ''C''))
       = filter (\<lambda>(k, n). k \<noteq> ''C'') (nodes fixture_graph)"
    "edges (snd (delete_node fixture_graph ''C''))
       = filter (\<lambda>(k, e). \<not> in_key ''C'' k) (edges fixture_graph)"
    by blast+
  moreover from e hE have "delete_node fixture_graph ''E'' = (Inl (NodeNotFound ''E''), fixture_graph)"
    by blast
  ultimately show ?thesis
    by (simp add: fixture_graph_def in_key_def)
qed

text \<open>
  Claim C6. A call of \<open>add_node\<close>, \<open>delete_node\<close>, \<open>add_edge\<close> or \<open>delete_edge\<close> that raises
  leaves the model, its node dict and its edge dict, as it was before the call.
\<close>

theorem failing_call_leaves_model:
  "(isl (fst (add_node g nm x y)) \<longrightarrow> snd (add_node g nm x y) = g)
   \<and> (dict_ok (edges g) \<and> isl (fst (delete_node g dn)) \<longrightarrow> snd (delete_node g dn) = g)
   \<and> (isl (fst (add_edge g u v d t a)) \<longrightarrow> snd (add_edge g u v d t a) = g)
   \<and> (isl (fst (delete_edge g p q)) \<longrightarrow> snd (delete_edge g p q) = g)"
proof (intro conjI impI)
  assume "isl (fst (add_node g nm x y))"
  then show "snd (add_node g nm x y) = g"
    by (auto simp: add_node_def split: if_splits)
next
  assume a: "dict_ok (edges g) \<and> isl (fst (delete_node g dn))"
  show "snd (delete_node g dn) = g"
  proof (cases "dict_has (nodes g) dn")
    case True
    with a delete_node_ok [of g dn] show ?thesis by simp
  next
    case False
    then show ?thesis by (simp add: delete_node_def)
  qed
next
  assume "isl (fst (add_edge g u v d t a))"
  then show "snd (add_edge g u v d t a) = g"
    by (auto simp: add_edge_def Let_def split: if_splits)
next
  assume "isl (fst (delete_edge g p q))"
  then show "snd (delete_edge g p q) = g"
    by (auto simp: delete_edge_def Let_def dict_del_def split: if_splits)
qed

theorem failing_call_leaves_model_witness:
  "snd (add_node fixture_graph ''A'' 3 4) = fixture_graph
   \<and> snd (delete_node fixture_graph ''E'') = fixture_graph
   \<and> snd (add_edge fixture_graph ''B'' ''A'' 5 1 True) = fixture_graph
   \<and> snd (delete_edge fixture_graph ''A'' ''D'') = fixture_graph"
proof -
  have 1: "isl (fst (add_node fixture_graph ''A'' 3 4))"
    by (simp add: add_node_def fixture_has strip_def py_isspace_def)
  have 2: "dict_ok (edges fixture_graph) \<and> isl (fst (delete_node fixture_graph ''E''))"
    by (simp add: delete_node_def fixture_has fixture_dict_ok)
  have 3: "isl (fst (add_edge fixture_graph ''B'' ''A'' 5 1 True))"
    by (simp add: add_edge_def fixture_has sorted_pair_def)
  have 4: "isl (fst (delete_edge fixture_graph ''A'' ''D''))"
    by (simp add: delete_edge_def fixture_has sorted_pair_def)
  from failing_call_leaves_model
         [where g = fixture_graph and nm = "''A''" and x = 3 and y = 4 and dn = "''E''"
            and u = "''B''" and v = "''A''" and d = 5 and t = 1 and a = True
            and p = "''A''" and q = "''D''"] 1 2 3 4
  show ?thesis by blast
qed

text \<open>
  Claim C7, as stated, at a concrete input: \<open>add_edge(B, D, ...)\<close> and \<open>add_edge(D, B, ...)\<close>
  on the fixture both succeed, and the two models differ, since the new \<open>Edge\<close> stores
  its endpoints in the order of the arguments.
\<close>

theorem add_edge_orientation_counterexample:
  "fst (add_edge fixture_graph ''B'' ''D'' 70 2 True) = Inr ()
   \<and> fst (add_edge fixture_graph ''D'' ''B'' 70 2 True) = Inr ()
   \<and> snd (add_edge fixture_graph ''B'' ''D'' 70 2 True)
       \<noteq> snd (add_edge fixture_graph ''D'' ''B'' 70 2 True)"
  by (simp add: fixture_graph_def add_edge_def dict_has_def dict_set_def sorted_pair_def
      new_edge_def)

text \<open>
  Claim C7, amended. \<open>add_edge(u, v, ...)\<close> and \<open>add_edge(v, u, ...)\<close> succeed or fail
  alike and give models that agree in the nodes, in the edge keys and their order and in
  every edge field but the stored orientation \<open>u\<close>, \<open>v\<close>; after a successful call a further
  \<open>add_edge\<close> with the endpoints in either order fails as a duplicate; \<open>get_edge(p, q)\<close>
  and \<open>get_edge(q, p)\<close> are the same lookup, which returns the edge or \<open>None\<close>.
\<close>

theorem add_edge_symmetric:
  "isl (fst (add_edge g u v d t a)) = isl (fst (add_edge g v u d t a))
   \<and> unoriented (snd (add_edge g u v d t a)) = unoriented (snd (add_edge g v u d t a))
   \<and> (fst (add_edge g u v d t a) = Inr () \<longrightarrow>
        fst (add_edge (snd (add_edge g u v d t a)) u v d' t' a') = Inl (DuplicateEdge u v)
        \<and> fst (add_edge (snd (add_edge g u v d t a)) v u d' t' a') = Inl (DuplicateEdge v u))
   \<and> get_edge g p q = get_edge g q p"
proof (intro conjI impI)
  show "isl (fst (add_edge g u v d t a)) = isl (fst (add_edge g v u d t a))"
    by (auto simp: add_edge_def Let_def sorted_pair_commute [of v u])
  show "unoriented (snd (add_edge g u v d t a)) = unoriented (snd (add_edge g v u d t a))"
    by (auto simp: add_edge_def Let_def sorted_pair_commute [of v u] unoriented_def
        dict_set_def new_edge_def)
  show "get_edge g p q = get_edge g q p" by (rule get_edge_commute)
next
  assume ok: "fst (add_edge g u v d t a) = Inr ()"
  then have c: "u \<noteq> v" "dict_has (nodes g) u" "dict_has (nodes g) v"
    "\<not> dict_has (edges g) (sorted_pair u v)" "0 < d" "0 < t"
    by (simp_all add: add_edge_succeeds_iff)
  let ?g' = "snd (add_edge g u v d t a)"
  from c have g': "?g' = g\<lparr>edges := edges g @ [(sorted_pair u v, new_edge u v d t a)]\<rparr>"
    by (simp add: add_edge_ok)
  have has: "dict_has (edges ?g') (sorted_pair u v)"
    by (simp add: g' dict_has_iff)
  have n: "dict_has (nodes ?g') u" "dict_has (nodes ?g') v" using c by (simp_all add: g')
  show "fst (add_edge ?g' u v d' t' a') = Inl (DuplicateEdge u v)"
    using c(1) n has by (simp add: add_edge_def)
  show "fst (add_edge ?g' v u d' t' a') = Inl (DuplicateEdge v u)"
    using c(1) n has by (simp add: add_edge_def sorted_pair_commute [of v u])
qed

theorem add_edge_symmetric_witness:
  "fst (add_edge (snd (add_edge fixture_graph ''B'' ''D'' 70 2 True)) ''B'' ''D'' 5 5 False)
     = Inl (DuplicateEdge ''B'' ''D'')
   \<and> fst (add_edge (snd (add_edge fixture_graph ''B'' ''D'' 70 2 True)) ''D'' ''B'' 5 5 False)
     = Inl (DuplicateEdge ''D'' ''B'')"
proof -
  have "fst (add_edge fixture_graph ''B'' ''D'' 70 2 True) = Inr ()"
    by (simp add: fixture_graph_def add_edge_def dict_has_def sorted_pair_def)
  with add_edge_symmetric [of fixture_graph "''B''" "''D''" 70 2 True 5 5 False]
  show ?thesis by blast
qed

text \<open>
  Claim C9. The calls of the fixture succeed and build \<open>fixture_graph\<close>; BFS from A to D
  without the accessibility filter visits A, B, C, D, returns the path A, C, D, and the
  cost of that path is distance 550 and time 6.
\<close>

theorem bfs_fixture:
  "fixture = (Inr (), fixture_graph)
   \<and> bfs fixture_graph ''A'' ''D'' False
       = Some (Inr ([''A'', ''B'', ''C'', ''D''], [''A'', ''C'', ''D'']))
   \<and> path_cost fixture_graph [''A'', ''C'', ''D''] = (550, 6)"
proof (intro conjI)
  show "fixture = (Inr (), fixture_graph)" by (rule fixture_eq)
  show "bfs fixture_graph ''A'' ''D'' False
       = Some (Inr ([''A'', ''B'', ''C'', ''D''], [''A'', ''C'', ''D'']))"
    by (simp add: fixture_graph_def bfs_def neighbors_def get_edge_def dict_get_def
        sorted_pair_def skip_edge_def reconstruct_path_def walk_back.simps)
  show "path_cost fixture_graph [''A'', ''C'', ''D''] = (550, 6)"
    by (simp add: fixture_graph_def path_cost_def get_edge_def dict_get_def sorted_pair_def)
qed

lemma walk_back_root: "parent cur = Some None \<Longrightarrow> walk_back parent cur path = Some (Inr path)"
  by (subst walk_back.simps) simp

text \<open>
  Claim C10. With \<open>start = goal = s\<close> both traversals return without an error,
  \<open>visited_order = [s]\<close> and \<open>path = [s]\<close>, on every model and with either filter.
\<close>

theorem start_is_goal:
  "bfs g s s accessible_only = Some (Inr ([s], [s]))
   \<and> dfs g s s accessible_only = Some (Inr ([s], [s]))"
proof
  show "bfs g s s accessible_only = Some (Inr ([s], [s]))"
    by (simp add: bfs_def reconstruct_path_def walk_back_root)
  show "dfs g s s accessible_only = Some (Inr ([s], [s]))"
    by (simp add: dfs_def dfs_rec.simps Let_def reconstruct_path_def walk_back_root)
qed

text \<open>
  Claim C2, as stated, at a concrete input: in the model built with A-C added before A-B
  the neighbours of A are enumerated C before B, and BFS and DFS from A to D return the
  path over C, while on the model with the same edges added A-B first they return the
  path over B.
\<close>

theorem neighbor_order_counterexample:
  "fst diamond = Inr () \<and> fst diamond_swapped = Inr ()
   \<and> nodes (snd diamond_swapped) = nodes (snd diamond)
   \<and> set (edges (snd diamond_swapped)) = set (edges (snd diamond))
   \<and> neighbors (snd diamond_swapped) ''A'' False = [''C'', ''B'']
   \<and> bfs (snd diamond) ''A'' ''D'' False
       = Some (Inr ([''A'', ''B'', ''C'', ''D''], [''A'', ''B'', ''D'']))
   \<and> bfs (snd diamond_swapped) ''A'' ''D'' False
       = Some (Inr ([''A'', ''C'', ''B'', ''D''], [''A'', ''C'', ''D'']))
   \<and> dfs (snd diamond) ''A'' ''D'' False
       = Some (Inr ([''A'', ''B'', ''D''], [''A'', ''B'', ''D'']))
   \<and> dfs (snd diamond_swapped) ''A'' ''D'' False
       = Some (Inr ([''A'', ''C'', ''D''], [''A'', ''C'', ''D'']))"
  by code_simp

lemma neighbors_order_facts:
  "neighbors g w accessible_only
     = map (\<lambda>((a, b), e). if a = w then b else a)
         (filter (\<lambda>((a, b), e). \<not> edge_closed e \<and> (accessible_only \<longrightarrow> edge_accessible e)
                                  \<and> (a = w \<or> b = w)) (edges g))
   \<and> (fst (add_edge g u v d t acc) = Inr () \<longrightarrow>
        neighbors (snd (add_edge g u v d t acc)) w accessible_only
          = neighbors g w accessible_only
            @ (if accessible_only \<and> \<not> acc then [] else if w = u then [v] else if w = v then [u] else []))"
proof (intro conjI impI)
  have "concat (map (nbr_of w accessible_only) es)
     = map (\<lambda>((a, b), e). if a = w then b else a)
         (filter (\<lambda>((a, b), e). \<not> edge_closed e \<and> (accessible_only \<longrightarrow> edge_accessible e)
                                  \<and> (a = w \<or> b = w)) es)" for es
    by (induction es) (auto simp: nbr_of_def)
  then show "neighbors g w accessible_only
     = map (\<lambda>((a, b), e). if a = w then b else a)
         (filter (\<lambda>((a, b), e). \<not> edge_closed e \<and> (accessible_only \<longrightarrow> edge_accessible e)
                                  \<and> (a = w \<or> b = w)) (edges g))"
    by (simp add: neighbors_eq)
next
  assume ok: "fst (add_edge g u v d t acc) = Inr ()"
  then have c: "u \<noteq> v" "dict_has (nodes g) u" "dict_has (nodes g) v"
    "\<not> dict_has (edges g) (sorted_pair u v)" "0 < d" "0 < t"
    by (simp_all add: add_edge_succeeds_iff)
  then have g': "snd (add_edge g u v d t acc)
      = g\<lparr>edges := edges g @ [(sorted_pair u v, new_edge u v d t acc)]\<rparr>"
    by (simp add: add_edge_ok)
  show "neighbors (snd (add_edge g u v d t acc)) w accessible_only
          = neighbors g w accessible_only
            @ (if accessible_only \<and> \<not> acc then [] else if w = u then [v] else if w = v then [u] else [])"
    using c(1) by (auto simp: g' neighbors_eq nbr_of_def new_edge_def sorted_pair_def)
qed

section \<open>Correctness of breadth-first search\<close>

lemma traversable_neighbors:
  assumes "traversable g ao x y"
  shows "y \<in> set (neighbors g x ao)"
proof -
  from assms have "\<not> skip_edge (map_of (edges g) (sorted_pair x y)) ao"
    by (simp add: traversable_def get_edge_def dict_get_def)
  then obtain e where e: "map_of (edges g) (sorted_pair x y) = Some e"
    and ok: "\<not> edge_closed e" "ao \<longrightarrow> edge_accessible e"
    by (cases "map_of (edges g) (sorted_pair x y)") (auto simp: skip_edge_def)
  from e have "(sorted_pair x y, e) \<in> set (edges g)" by (rule map_of_SomeD)
  moreover have "y \<in> set (nbr_of x ao (sorted_pair x y, e))"
  proof (cases "y < x")
    case True
    then have "sorted_pair x y = (y, x)" by (simp add: sorted_pair_def)
    with ok show ?thesis by (simp add: nbr_of_def)
  next
    case False
    then have "sorted_pair x y = (x, y)" by (simp add: sorted_pair_def)
    with ok show ?thesis by (simp add: nbr_of_def)
  qed
  ultimately show ?thesis by (auto simp: neighbors_eq)
qed

lemma traversable_sym: "traversable g ao x y = traversable g ao y x"
  by (simp add: traversable_def get_edge_commute [of g x y])

lemma is_route_single: "is_route g ao s s [s]"
  by (simp add: is_route_def)

lemma is_route_snoc:
  "is_route g ao s x p \<Longrightarrow> traversable g ao x y \<Longrightarrow> is_route g ao s y (p @ [y])"
  by (auto simp: is_route_def successively_append_iff)

lemma is_route_butlast:
  assumes "is_route g ao s y p" "2 \<le> length p"
  shows "is_route g ao s (last (butlast p)) (butlast p) \<and> traversable g ao (last (butlast p)) y"
proof -
  from assms obtain p' where p: "p = p' @ [y]"
    by (metis append_butlast_last_id is_route_def)
  with assms(2) have ne: "p' \<noteq> []" by auto
  with assms(1) show ?thesis
    by (auto simp: p is_route_def successively_append_iff)
qed

lemma hops_le: "is_route g ao s v p \<Longrightarrow> Suc (hops g ao s v) \<le> length p"
proof -
  assume r: "is_route g ao s v p"
  then have "p \<noteq> []" by (simp add: is_route_def)
  then have "length p = Suc (length p - 1)" by (cases p) auto
  with r have "\<exists>q. is_route g ao s v q \<and> length q = Suc (length p - 1)" by auto
  then have "hops g ao s v \<le> length p - 1" unfolding hops_def by (rule Least_le)
  then show ?thesis using \<open>length p = Suc (length p - 1)\<close> by linarith
qed

lemma hops_route:
  assumes "is_route g ao s v p"
  shows "\<exists>q. is_route g ao s v q \<and> length q = Suc (hops g ao s v)"
proof -
  from assms have "p \<noteq> []" by (simp add: is_route_def)
  then have "length p = Suc (length p - 1)" by (cases p) auto
  with assms have "\<exists>q. is_route g ao s v q \<and> length q = Suc (length p - 1)" by auto
  then show ?thesis unfolding hops_def by (rule LeastI)
qed

lemma hops_start: "hops g ao s s = 0"
  using hops_le [OF is_route_single, of g ao s] by simp

lemma hops_zero:
  assumes "is_route g ao s v p" "hops g ao s v = 0"
  shows "v = s"
proof -
  from hops_route [OF assms(1)] assms(2) obtain q where "is_route g ao s v q" "length q = 1"
    by auto
  then show ?thesis by (cases q) (auto simp: is_route_def)
qed

lemma hops_step:
  assumes "is_route g ao s x p" "traversable g ao x y"
  shows "hops g ao s y \<le> Suc (hops g ao s x)"
proof -
  from hops_route [OF assms(1)] obtain q where
    q: "is_route g ao s x q" "length q = Suc (hops g ao s x)" by auto
  from hops_le [OF is_route_snoc [OF q(1) assms(2)]] q(2) show ?thesis by simp
qed

lemma hops_pred:
  assumes "is_route g ao s y p" "hops g ao s y = Suc k"
  shows "\<exists>x q. is_route g ao s x q \<and> hops g ao s x = k \<and> traversable g ao x y"
proof -
  from hops_route [OF assms(1)] assms(2) obtain q where
    q: "is_route g ao s y q" "length q = Suc (Suc k)" by auto
  let ?x = "last (butlast q)"
  from is_route_butlast [OF q(1)] q(2) have
    b: "is_route g ao s ?x (butlast q)" "traversable g ao ?x y" by auto
  from hops_le [OF b(1)] q(2) have "hops g ao s ?x \<le> k" by simp
  moreover from hops_step [OF b] assms(2) have "k \<le> hops g ao s ?x" by simp
  ultimately show ?thesis using b by auto
qed

lemma route_in_closed:
  assumes "successively (traversable g ao) p" "p \<noteq> []" "hd p \<in> V"
    "\<forall>x\<in>V. \<forall>y. traversable g ao x y \<longrightarrow> y \<in> V"
  shows "set p \<subseteq> V"
  using assms
proof (induction p)
  case Nil
  then show ?case by simp
next
  case (Cons a p)
  show ?case
  proof (cases p)
    case Nil
    with Cons.prems show ?thesis by simp
  next
    case (Cons b p')
    with Cons.prems have "traversable g ao a b" "a \<in> V" by auto
    with Cons.prems(4) have "b \<in> V" by blast
    with Cons.IH Cons.prems Cons show ?thesis by auto
  qed
qed

lemma back_chain_frame:
  "back_chain parent c \<Longrightarrow> \<forall>x\<in>set c. parent' x = parent x \<Longrightarrow> back_chain parent' c"
  by (induction parent c rule: back_chain.induct) auto

lemma walk_back_chain:
  "back_chain parent (v # rest) \<Longrightarrow>
   walk_back parent v (path @ [v]) = Some (Inr (path @ v # rest))"
proof (induction rest arbitrary: v path)
  case Nil
  then show ?case by (subst walk_back.simps) simp
next
  case (Cons u rest)
  then have "parent v = Some (Some u)" "back_chain parent (u # rest)" by auto
  with Cons.IH [of u "path @ [v]"] show ?case
    by (subst walk_back.simps) simp
qed

lemma reconstruct_path_chain:
  assumes "back_chain parent (goal # rest)" "last (goal # rest) = start"
  shows "reconstruct_path parent start goal = Some (Inr (rev (goal # rest)))"
proof -
  from assms(1) have "parent goal \<noteq> None" by (cases rest) auto
  moreover from walk_back_chain [OF assms(1), of "[]"]
  have "walk_back parent goal [goal] = Some (Inr (goal # rest))" by simp
  moreover have "hd (rev (goal # rest)) = start"
    unfolding hd_rev using assms(2) .
  ultimately show ?thesis by (simp add: reconstruct_path_def)
qed

lemma has_chain_route:
  assumes "has_chain g ao s parent visited v c"
  shows "is_route g ao s v (rev (v # c))"
proof -
  from assms have "last (v # c) = s" "successively (traversable g ao) (rev (v # c))"
    by (simp_all add: has_chain_def)
  moreover have "hd (rev (v # c)) = last (v # c)" by (rule hd_rev)
  moreover have "last (rev (v # c)) = v" by simp
  ultimately show ?thesis unfolding is_route_def by simp
qed

lemma has_chain_frame:
  assumes "has_chain g ao s parent visited v c" "v \<in> visited" "visited \<subseteq> visited'"
    "\<forall>x\<in>visited. parent' x = parent x"
  shows "has_chain g ao s parent' visited' v c"
proof -
  from assms(1,2) have "set (v # c) \<subseteq> visited" by (simp add: has_chain_def)
  with assms(4) have "\<forall>x\<in>set (v # c). parent' x = parent x" by blast
  with assms(1) have "back_chain parent' (v # c)"
    unfolding has_chain_def by (blast intro: back_chain_frame)
  with assms(1,3) show ?thesis unfolding has_chain_def by blast
qed

lemma has_chain_extend:
  assumes "has_chain g ao s parent visited u c" "u \<in> visited" "traversable g ao u w"
    "parent w = Some (Some u)"
  shows "has_chain g ao s parent visited w (u # c)"
proof -
  from assms(1) have c: "back_chain parent (u # c)" "last (u # c) = s" "set c \<subseteq> visited"
    "successively (traversable g ao) (rev (u # c))"
    by (simp_all add: has_chain_def)
  have "last (rev (u # c)) = u" by simp
  with c(4) assms(3) have "successively (traversable g ao) (rev (u # c) @ [w])"
    by (simp only: successively_append_iff) simp
  then have "successively (traversable g ao) (rev (w # u # c))" by simp
  with c assms(2,4) show ?thesis unfolding has_chain_def by simp
qed

lemma bfs_scan_spec:
  assumes "bfs_scan g ao u ws (q, parent, visited) = (q', parent', visited')"
  shows "\<exists>new. q' = q @ new \<and> visited' = visited \<union> set new \<and> distinct new
           \<and> set new = {w \<in> set ws. traversable g ao u w} - visited
           \<and> (\<forall>w. parent' w = (if w \<in> set new then Some (Some u) else parent w))"
  using assms
proof (induction ws arbitrary: q parent visited)
  case Nil
  then show ?case by simp
next
  case (Cons w ws)
  show ?case
  proof (cases "traversable g ao u w \<and> w \<notin> visited")
    case True
    with Cons.prems have
      "bfs_scan g ao u ws (q @ [w], parent(w \<mapsto> Some u), insert w visited) = (q', parent', visited')"
      by (simp add: traversable_def)
    from Cons.IH [OF this] obtain new where new:
      "q' = (q @ [w]) @ new" "visited' = insert w visited \<union> set new" "distinct new"
      "set new = {x \<in> set ws. traversable g ao u x} - insert w visited"
      "\<forall>x. parent' x = (if x \<in> set new then Some (Some u) else (parent(w \<mapsto> Some u)) x)"
      by blast
    have "q' = q @ (w # new)" using new(1) by simp
    moreover have "visited' = visited \<union> set (w # new)" using new(2) by simp
    moreover have "distinct (w # new)" using new(3,4) by simp
    moreover have "set (w # new) = {x \<in> set (w # ws). traversable g ao u x} - visited"
      using new(4) True by auto
    moreover have "\<forall>x. parent' x = (if x \<in> set (w # new) then Some (Some u) else parent x)"
      using new(5) by simp
    ultimately show ?thesis by blast
  next
    case False
    with Cons.prems have "bfs_scan g ao u ws (q, parent, visited) = (q', parent', visited')"
      by (auto simp: traversable_def split: if_splits)
    from Cons.IH [OF this] obtain new where new:
      "q' = q @ new" "visited' = visited \<union> set new" "distinct new"
      "set new = {x \<in> set ws. traversable g ao u x} - visited"
      "\<forall>x. parent' x = (if x \<in> set new then Some (Some u) else parent x)"
      by blast
    have "set new = {x \<in> set (w # ws). traversable g ao u x} - visited"
      using new(4) False by auto
    with new show ?thesis by blast
  qed
qed

lemma sorted_map_const: "\<forall>x\<in>set xs. f x = (c::nat) \<Longrightarrow> sorted (map f xs)"
  by (induction xs) auto

lemma bfs_inv_init: "bfs_inv g ao s goal [s] [s \<mapsto> None] {s} []"
proof -
  have "has_chain g ao s [s \<mapsto> None] {s} s []" by (simp add: has_chain_def)
  moreover have "w = s" if "\<exists>p. is_route g ao s w p" "hops g ao s w \<le> hops g ao s s" for w
    using that hops_zero [of g ao s w] by (auto simp: hops_start)
  ultimately show ?thesis unfolding bfs_inv_def by (auto simp: hops_start)
qed


lemma bfs_inv_step:
  assumes inv: "bfs_inv g ao s goal (u # q) parent visited order"
    and ng: "u \<noteq> goal"
    and scan: "bfs_scan g ao u (neighbors g u ao) (q, parent, visited) = (q', parent', visited')"
  shows "bfs_inv g ao s goal q' parent' visited' (order @ [u])"
proof -
  let ?T = "traversable g ao" and ?h = "hops g ao s"
  from bfs_scan_spec [OF scan] obtain new where
    q': "q' = q @ new" and v': "visited' = visited \<union> set new" and dnew: "distinct new"
    and new0: "set new = {w \<in> set (neighbors g u ao). ?T u w} - visited"
    and p': "\<And>w. parent' w = (if w \<in> set new then Some (Some u) else parent w)"
    by blast
  have new_set: "set new = {w. ?T u w} - visited"
    using new0 traversable_neighbors [of g ao u] by auto
  from inv have dq: "distinct (u # q)" and sub: "set (u # q) \<subseteq> visited" and sv: "s \<in> visited"
    unfolding bfs_inv_def by blast+
  from inv have dom: "\<And>w. (parent w = None) = (w \<notin> visited)"
    unfolding bfs_inv_def by blast
  from inv have chain:
    "\<And>v. v \<in> visited \<Longrightarrow> \<exists>c. has_chain g ao s parent visited v c \<and> length c = ?h v"
    unfolding bfs_inv_def by blast
  from inv have srt: "sorted (map ?h (u # q))"
    and bnd0: "\<forall>x\<in>set (u # q). ?h x \<le> Suc (?h (hd (u # q)))"
    unfolding bfs_inv_def by blast+
  from bnd0 have bnd: "\<And>x. x \<in> set (u # q) \<Longrightarrow> ?h x \<le> Suc (?h u)" by auto
  from inv have closed: "\<And>x y. x \<in> visited \<Longrightarrow> x \<notin> set (u # q) \<Longrightarrow> ?T x y \<Longrightarrow> y \<in> visited"
    unfolding bfs_inv_def by blast
  from inv have lvl: "\<And>w p. is_route g ao s w p \<Longrightarrow> ?h w \<le> ?h u \<Longrightarrow> w \<in> visited"
    unfolding bfs_inv_def by (metis list.distinct(1) list.sel(1))
  from inv have gl: "goal \<in> visited \<Longrightarrow> goal \<in> set (u # q)"
    unfolding bfs_inv_def by blast
  from inv have ord: "set order = visited - set (u # q)" "distinct order"
    "if order = [] then u # q = [s] else hd order = s"
    unfolding bfs_inv_def by blast+
  from sub have uvis: "u \<in> visited" by simp
  from chain [OF uvis] obtain cu where cu: "has_chain g ao s parent visited u cu" "length cu = ?h u"
    by blast
  note route_u = has_chain_route [OF cu(1)]
  have lo: "?h u \<le> ?h x" if "x \<in> set q" for x using srt that by auto
  have new_T: "?T u w" and new_nv: "w \<notin> visited" if "w \<in> set new" for w
    using that new_set by auto
  have new_h: "?h w = Suc (?h u)" if "w \<in> set new" for w
  proof -
    from hops_step [OF route_u new_T [OF that]] have "?h w \<le> Suc (?h u)" .
    moreover have "\<not> ?h w \<le> ?h u"
      using lvl [OF is_route_snoc [OF route_u new_T [OF that]]] new_nv [OF that] by blast
    ultimately show ?thesis by simp
  qed
  have agree: "\<forall>x\<in>visited. parent' x = parent x" using p' new_nv by auto
  have vsub: "visited \<subseteq> visited'" using v' by auto
  have disj: "set q \<inter> set new = {}" using sub new_nv by auto
  have i1: "distinct q'" using dq dnew disj by (simp add: q')
  have i2: "set q' \<subseteq> visited'" using sub by (auto simp: q' v')
  have i3: "s \<in> visited'" using sv by (simp add: v')
  have i4: "\<forall>w. (parent' w = None) = (w \<notin> visited')"
    using dom new_nv by (auto simp: p' v')
  have i5: "\<forall>v\<in>visited'. \<exists>c. has_chain g ao s parent' visited' v c \<and> length c = ?h v"
  proof
    fix v assume "v \<in> visited'"
    then consider "v \<in> visited" | "v \<in> set new" by (auto simp: v')
    then show "\<exists>c. has_chain g ao s parent' visited' v c \<and> length c = ?h v"
    proof cases
      case 1
      from chain [OF 1] obtain c where c: "has_chain g ao s parent visited v c" "length c = ?h v"
        by blast
      from has_chain_frame [OF c(1) 1 vsub agree] c(2) show ?thesis by blast
    next
      case 2
      have "has_chain g ao s parent' visited' u cu"
        by (rule has_chain_frame [OF cu(1) uvis vsub agree])
      moreover have "u \<in> visited'" using uvis vsub by blast
      moreover have "parent' v = Some (Some u)" using 2 by (simp add: p')
      ultimately have "has_chain g ao s parent' visited' v (u # cu)"
        using new_T [OF 2] by (intro has_chain_extend)
      moreover have "length (u # cu) = ?h v" using cu(2) new_h [OF 2] by simp
      ultimately show ?thesis by blast
    qed
  qed
  have all_lo: "?h u \<le> ?h x" and all_hi: "?h x \<le> Suc (?h u)" if "x \<in> set q'" for x
    using that lo new_h bnd by (auto simp: q')
  have i6: "sorted (map ?h q')"
  proof -
    have "sorted (map ?h q)" using srt by simp
    moreover have "sorted (map ?h new)" using new_h by (intro sorted_map_const [of _ _ "Suc (?h u)"]) simp
    moreover have "\<forall>x\<in>set q. \<forall>y\<in>set new. ?h x \<le> ?h y" using bnd new_h by simp
    ultimately show ?thesis by (simp add: q' sorted_append)
  qed
  have i7: "\<forall>x\<in>set q'. ?h x \<le> Suc (?h (hd q'))"
  proof
    fix x assume x: "x \<in> set q'"
    then have "q' \<noteq> []" by auto
    then have "hd q' \<in> set q'" by simp
    from all_lo [OF this] all_hi [OF x] show "?h x \<le> Suc (?h (hd q'))" by simp
  qed
  have i8: "\<forall>x\<in>visited' - set q'. \<forall>y. ?T x y \<longrightarrow> y \<in> visited'"
  proof (intro ballI allI impI)
    fix x y assume x: "x \<in> visited' - set q'" and T: "?T x y"
    from x have xv: "x \<in> visited" "x \<notin> set q" by (auto simp: q' v')
    show "y \<in> visited'"
    proof (cases "x = u")
      case True
      with T new_set show ?thesis by (auto simp: v')
    next
      case False
      with xv closed [of x y] T show ?thesis by (auto simp: v')
    qed
  qed
  have i9: "q' \<noteq> [] \<longrightarrow>
      (\<forall>w. (\<exists>p. is_route g ao s w p) \<and> ?h w \<le> ?h (hd q') \<longrightarrow> w \<in> visited')"
  proof (intro impI allI)
    fix w assume ne: "q' \<noteq> []" and w: "(\<exists>p. is_route g ao s w p) \<and> ?h w \<le> ?h (hd q')"
    then obtain p where p: "is_route g ao s w p" by blast
    from ne have hdin: "hd q' \<in> set q'" by simp
    show "w \<in> visited'"
    proof (cases "?h w \<le> ?h u")
      case True
      from lvl [OF p True] show ?thesis by (simp add: v')
    next
      case False
      with w all_hi [OF hdin] have hw: "?h w = Suc (?h u)" and hhd: "?h (hd q') = Suc (?h u)"
        by simp_all
      from hops_pred [OF p hw] obtain x px where
        x: "is_route g ao s x px" "?h x = ?h u" "?T x w" by blast
      from lvl [OF x(1)] x(2) have xv: "x \<in> visited" by simp
      have "x \<notin> set q"
      proof
        assume xq: "x \<in> set q"
        then have "q \<noteq> []" by auto
        then have "hd q' = hd q" by (simp add: q')
        moreover have "?h (hd q) \<le> ?h x"
          using srt xq \<open>q \<noteq> []\<close> by (cases q) auto
        ultimately show False using hhd x(2) by simp
      qed
      show ?thesis
      proof (cases "x = u")
        case True
        with x(3) new_set show ?thesis by (auto simp: v')
      next
        case False
        with xv \<open>x \<notin> set q\<close> closed [of x w] x(3) show ?thesis by (auto simp: v')
      qed
    qed
  qed
  have i10: "goal \<in> visited' \<longrightarrow> goal \<in> set q'"
    using gl ng by (auto simp: q' v')
  have i11: "set (order @ [u]) = visited' - set q'"
    using ord(1) dq uvis new_nv sub by (auto simp: q' v')
  have i12: "distinct (order @ [u])" using ord(1,2) by simp
  have i13: "if order @ [u] = [] then q' = [s] else hd (order @ [u]) = s"
    using ord(3) by (cases order) (auto split: if_splits)
  show ?thesis unfolding bfs_inv_def
    using i1 i2 i3 i4 i5 i6 i7 i8 i9 i10 i11 i12 i13 by blast
qed


lemma bfs_loop_inv:
  assumes "bfs_inv g ao s goal q parent visited order"
    "bfs_loop g goal ao q parent visited order = (ord, par)"
  shows "(\<exists>q' vis' ord'. bfs_inv g ao s goal (goal # q') par vis' ord' \<and> ord = ord' @ [goal])
         \<or> (\<exists>vis'. bfs_inv g ao s goal [] par vis' ord)"
  using assms
proof (induction g goal ao q parent visited order rule: bfs_loop.induct)
  case (1 g goal ao parent visited order)
  then show ?case by auto
next
  case (2 g goal ao u q parent visited order)
  show ?case
  proof (cases "u = goal")
    case True
    with "2.prems" show ?thesis by auto
  next
    case False
    obtain q' parent' visited' where
      scan: "bfs_scan g ao u (neighbors g u ao) (q, parent, visited) = (q', parent', visited')"
      by (cases "bfs_scan g ao u (neighbors g u ao) (q, parent, visited)") auto
    from bfs_inv_step [OF "2.prems"(1) False scan]
    have inv': "bfs_inv g ao s goal q' parent' visited' (order @ [u])" .
    from "2.prems"(2) False scan
    have "bfs_loop g goal ao q' parent' visited' (order @ [u]) = (ord, par)" by simp
    from "2.IH" [OF False scan [symmetric] refl inv' this] show ?thesis .
  qed
qed

lemma bfs_inv_visited_reachable:
  assumes "bfs_inv g ao s goal q parent visited order" "v \<in> visited"
  shows "\<exists>p. is_route g ao s v p"
proof -
  from assms obtain c where "has_chain g ao s parent visited v c"
    unfolding bfs_inv_def by blast
  from has_chain_route [OF this] show ?thesis by blast
qed

lemma bfs_inv_path:
  assumes "bfs_inv g ao s goal q parent visited order" "v \<in> visited"
  shows "\<exists>p. reconstruct_path parent s v = Some (Inr p) \<and> is_route g ao s v p
             \<and> length p = Suc (hops g ao s v)"
proof -
  from assms obtain c where c: "has_chain g ao s parent visited v c" "length c = hops g ao s v"
    unfolding bfs_inv_def by blast
  from c(1) have "back_chain parent (v # c)" "last (v # c) = s" by (simp_all add: has_chain_def)
  from reconstruct_path_chain [OF this]
  have "reconstruct_path parent s v = Some (Inr (rev (v # c)))" .
  with has_chain_route [OF c(1)] c(2) show ?thesis by simp
qed

lemma bfs_inv_empty_all:
  assumes "bfs_inv g ao s goal [] parent visited order"
  shows "visited = {v. \<exists>p. is_route g ao s v p}"
proof
  show "visited \<subseteq> {v. \<exists>p. is_route g ao s v p}"
    using bfs_inv_visited_reachable [OF assms] by blast
  from assms have sv: "s \<in> visited"
    and cl: "\<forall>x\<in>visited. \<forall>y. traversable g ao x y \<longrightarrow> y \<in> visited"
    unfolding bfs_inv_def by simp_all
  show "{v. \<exists>p. is_route g ao s v p} \<subseteq> visited"
  proof
    fix v assume "v \<in> {v. \<exists>p. is_route g ao s v p}"
    then obtain p where p: "is_route g ao s v p" by blast
    then have "successively (traversable g ao) p" "p \<noteq> []" "hd p \<in> visited" "last p = v"
      using sv by (simp_all add: is_route_def)
    from route_in_closed [OF this(1-3) cl] this(2,4) show "v \<in> visited"
      using last_in_set by blast
  qed
qed

text \<open>The outcome of BFS, in one statement.\<close>

lemma bfs_summary:
  "\<exists>ord path. bfs g s goal ao = Some (Inr (ord, path))
     \<and> distinct ord \<and> ord \<noteq> [] \<and> hd ord = s \<and> (goal \<in> set ord \<longrightarrow> last ord = goal)
     \<and> set ord \<subseteq> {v. \<exists>p. is_route g ao s v p}
     \<and> (if \<exists>p. is_route g ao s goal p
         then is_route g ao s goal path \<and> length path = Suc (hops g ao s goal)
         else path = [] \<and> set ord = {v. \<exists>p. is_route g ao s v p})"
proof -
  obtain ord par where loop: "bfs_loop g goal ao [s] [s \<mapsto> None] {s} [] = (ord, par)"
    by (cases "bfs_loop g goal ao [s] [s \<mapsto> None] {s} []") auto
  from bfs_loop_inv [OF bfs_inv_init loop]
  consider (found) q' vis' ord' where "bfs_inv g ao s goal (goal # q') par vis' ord'"
      "ord = ord' @ [goal]"
    | (exhausted) vis' where "bfs_inv g ao s goal [] par vis' ord"
    by blast
  then show ?thesis
  proof cases
    case found
    note inv = found(1)
    from inv have gv: "goal \<in> vis'" and o: "set ord' = vis' - set (goal # q')" "distinct ord'"
      "if ord' = [] then goal # q' = [s] else hd ord' = s"
      unfolding bfs_inv_def by auto
    from bfs_inv_path [OF inv gv] obtain p where
      p: "reconstruct_path par s goal = Some (Inr p)" "is_route g ao s goal p"
      "length p = Suc (hops g ao s goal)" by blast
    have "bfs g s goal ao = Some (Inr (ord, p))" unfolding bfs_def loop by (simp add: p(1))
    moreover have "distinct ord" using o(1,2) by (simp add: found(2))
    moreover have "hd ord = s" using o(3) by (cases ord') (auto simp: found(2) split: if_splits)
    moreover have "set ord \<subseteq> {v. \<exists>p. is_route g ao s v p}"
      using bfs_inv_visited_reachable [OF inv] o(1) gv by (auto simp: found(2))
    ultimately show ?thesis using p(2,3) by (auto simp: found(2))
  next
    case exhausted
    note inv = exhausted
    from inv have gnv: "goal \<notin> vis'" and o: "set ord = vis'" "distinct ord"
      "if ord = [] then [] = [s] else hd ord = s"
      and dom: "\<forall>w. (par w = None) = (w \<notin> vis')"
      unfolding bfs_inv_def by auto
    note all = bfs_inv_empty_all [OF inv]
    from dom gnv have "par goal = None" by blast
    then have "bfs g s goal ao = Some (Inr (ord, []))"
      unfolding bfs_def loop by (simp add: reconstruct_path_def)
    moreover have "ord \<noteq> []" "hd ord = s" using o(3) by (auto split: if_splits)
    moreover have "\<not> (\<exists>p. is_route g ao s goal p)" using gnv all by blast
    ultimately show ?thesis using o(1,2) all gnv by auto
  qed
qed

section \<open>Correctness of depth-first search\<close>

lemma has_chain_mono:
  assumes "has_chain g ao s parent visited v c" "visited \<subseteq> visited'"
    "\<forall>x\<in>set (v # c). parent' x = parent x"
  shows "has_chain g ao s parent' visited' v c"
proof -
  from assms(1,3) have "back_chain parent' (v # c)"
    unfolding has_chain_def by (blast intro: back_chain_frame)
  with assms(1,2) show ?thesis unfolding has_chain_def by blast
qed

lemma dfs_closed_refl: "dfs_closed g ao V V"
  by (simp add: dfs_closed_def)

lemma dfs_closed_trans:
  assumes "dfs_closed g ao V W" "dfs_closed g ao W X" "W \<subseteq> X"
  shows "dfs_closed g ao V X"
  using assms unfolding dfs_closed_def by blast

lemma dfs_inv_found_mono:
  assumes "dfs_inv g ao s goal st" "dfs_inv g ao s goal st'"
    "ds_visited st \<subseteq> ds_visited st'" "ds_found st"
  shows "ds_found st'"
  using assms unfolding dfs_inv_def by blast

lemma dfs_inv_parent_upd:
  assumes "dfs_inv g ao s goal st" "w \<notin> ds_visited st"
  shows "dfs_inv g ao s goal (st\<lparr>ds_parent := (ds_parent st)(w \<mapsto> x)\<rparr>)"
proof -
  have "\<exists>c. has_chain g ao s ((ds_parent st)(w \<mapsto> x)) (ds_visited st) v c"
    if v: "v \<in> ds_visited st" for v
  proof -
    from assms(1) v obtain c where c: "has_chain g ao s (ds_parent st) (ds_visited st) v c"
      unfolding dfs_inv_def by blast
    then have "set (v # c) \<subseteq> ds_visited st" using v by (simp add: has_chain_def)
    with assms(2) have "\<forall>y\<in>set (v # c). ((ds_parent st)(w \<mapsto> x)) y = ds_parent st y"
      by auto
    from has_chain_mono [OF c subset_refl this] show ?thesis by blast
  qed
  with assms(1) show ?thesis unfolding dfs_inv_def by simp
qed

lemma dfs_inv_mark:
  assumes inv: "dfs_inv g ao s goal st" and nf: "\<not> ds_found st"
    and nv: "u \<notin> ds_visited st"
    and ch: "has_chain g ao s (ds_parent st) (ds_visited st) u c"
    and first: "ds_order st = [] \<longrightarrow> u = s"
  shows "dfs_inv g ao s goal
           (st\<lparr>ds_visited := insert u (ds_visited st), ds_order := ds_order st @ [u],
               ds_found := (u = goal)\<rparr>)"
proof -
  from inv have o: "set (ds_order st) = ds_visited st" "distinct (ds_order st)"
    "ds_order st \<noteq> [] \<longrightarrow> hd (ds_order st) = s"
    and gl: "goal \<notin> ds_visited st"
    and chains: "\<And>v. v \<in> ds_visited st \<Longrightarrow> \<exists>c. has_chain g ao s (ds_parent st) (ds_visited st) v c"
    using nf unfolding dfs_inv_def by blast+
  have "\<exists>c. has_chain g ao s (ds_parent st) (insert u (ds_visited st)) v c"
    if "v \<in> insert u (ds_visited st)" for v
  proof -
    from that ch chains obtain c' where "has_chain g ao s (ds_parent st) (ds_visited st) v c'"
      by blast
    from has_chain_mono [OF this, of "insert u (ds_visited st)" "ds_parent st"]
    show ?thesis by blast
  qed
  moreover have "hd (ds_order st @ [u]) = s" using o(3) first by (cases "ds_order st") auto
  ultimately show ?thesis using o nv gl unfolding dfs_inv_def by auto
qed

lemma dfs_correct:
  shows "dfs_inv g ao s goal st \<Longrightarrow>
         (\<not> ds_found st \<Longrightarrow> u \<notin> ds_visited st
             \<and> (\<exists>c. has_chain g ao s (ds_parent st) (ds_visited st) u c)
             \<and> (ds_order st = [] \<longrightarrow> u = s)) \<Longrightarrow>
         dfs_inv g ao s goal (dfs_rec g goal ao u st)
         \<and> ds_visited st \<subseteq> ds_visited (dfs_rec g goal ao u st)
         \<and> (\<not> ds_found (dfs_rec g goal ao u st) \<longrightarrow>
              u \<in> ds_visited (dfs_rec g goal ao u st)
              \<and> dfs_closed g ao (ds_visited st) (ds_visited (dfs_rec g goal ao u st)))"
    and "dfs_inv g ao s goal st \<Longrightarrow> (\<not> ds_found st \<Longrightarrow> u \<in> ds_visited st) \<Longrightarrow>
         dfs_inv g ao s goal (dfs_for g goal ao u ws st)
         \<and> ds_visited st \<subseteq> ds_visited (dfs_for g goal ao u ws st)
         \<and> (\<not> ds_found (dfs_for g goal ao u ws st) \<longrightarrow>
              dfs_closed g ao (ds_visited st) (ds_visited (dfs_for g goal ao u ws st))
              \<and> (\<forall>w\<in>set ws. traversable g ao u w \<longrightarrow> w \<in> ds_visited (dfs_for g goal ao u ws st)))"
proof (induction g goal ao u st and g goal ao u ws st rule: dfs_rec_dfs_for.induct)
  case (1 g goal ao u st)
  show ?case
  proof (cases "ds_found st")
    case True
    then have "dfs_rec g goal ao u st = st" by (simp add: dfs_rec.simps)
    with "1.prems"(1) True show ?thesis by (auto simp: dfs_inv_def)
  next
    case nf: False
    from "1.prems"(2) [OF nf] obtain c where nv: "u \<notin> ds_visited st"
      and ch: "has_chain g ao s (ds_parent st) (ds_visited st) u c"
      and first: "ds_order st = [] \<longrightarrow> u = s" by blast
    let ?mk = "st\<lparr>ds_visited := insert u (ds_visited st), ds_order := ds_order st @ [u]\<rparr>"
    note mark = dfs_inv_mark [OF "1.prems"(1) nf nv ch first]
    show ?thesis
    proof (cases "u = goal")
      case True
      then have r: "dfs_rec g goal ao u st = ?mk\<lparr>ds_found := True\<rparr>"
        using nf by (simp add: dfs_rec.simps Let_def)
      from mark True have "dfs_inv g ao s goal (?mk\<lparr>ds_found := True\<rparr>)" by simp
      then show ?thesis by (auto simp: r)
    next
      case False
      let ?st' = "dfs_for g goal ao u (neighbors g u ao) ?mk"
      from False nf have r: "dfs_rec g goal ao u st = ?st'"
        by (simp add: dfs_rec.simps Let_def)
      from mark False nf have inv1: "dfs_inv g ao s goal ?mk"
        by (simp add: dfs_inv_def)
      have "u \<in> ds_visited ?mk" by simp
      from "1.IH" [OF nf refl False inv1 this]
      have inv': "dfs_inv g ao s goal ?st'" and sub: "ds_visited ?mk \<subseteq> ds_visited ?st'"
        and cl: "\<not> ds_found ?st' \<Longrightarrow> dfs_closed g ao (ds_visited ?mk) (ds_visited ?st')"
        and nb: "\<not> ds_found ?st' \<Longrightarrow>
                 \<forall>w\<in>set (neighbors g u ao). traversable g ao u w \<longrightarrow> w \<in> ds_visited ?st'"
        by blast+
      have "dfs_closed g ao (ds_visited st) (ds_visited ?st')" if "\<not> ds_found ?st'"
        unfolding dfs_closed_def
      proof (intro ballI allI impI)
        fix x y assume x: "x \<in> ds_visited ?st' - ds_visited st" and T: "traversable g ao x y"
        show "y \<in> ds_visited ?st'"
        proof (cases "x = u")
          case True
          with T nb [OF that] traversable_neighbors [of g ao u y] show ?thesis by blast
        next
          case False
          with x have "x \<in> ds_visited ?st' - ds_visited ?mk" by simp
          with cl [OF that] T show ?thesis unfolding dfs_closed_def by blast
        qed
      qed
      with inv' sub show ?thesis unfolding r by auto
    qed
  qed
next
  case (2 g goal ao u st)
  then show ?case by (simp add: dfs_closed_refl)
next
  case (3 g goal ao u w ws st)
  note inv = "3.prems"(1) and uv = "3.prems"(2)
  show ?case
  proof (cases "skip_edge (get_edge g u w) ao")
    case True
    then have r: "dfs_for g goal ao u (w # ws) st = dfs_for g goal ao u ws st" by simp
    from True have "\<not> traversable g ao u w" by (simp add: traversable_def)
    with "3.IH"(1) [OF True inv uv] show ?thesis unfolding r by auto
  next
    case ns: False
    then have T: "traversable g ao u w" by (simp add: traversable_def)
    show ?thesis
    proof (cases "w \<in> ds_visited st")
      case True
      then have r: "dfs_for g goal ao u (w # ws) st = dfs_for g goal ao u ws st"
        using ns by simp
      from True have nn: "\<not> w \<notin> ds_visited st" by simp
      from "3.IH"(4) [OF ns nn inv uv] True show ?thesis unfolding r by auto
    next
      case nv: False
      let ?up = "st\<lparr>ds_parent := (ds_parent st)(w \<mapsto> Some u)\<rparr>"
      let ?rc = "dfs_rec g goal ao w ?up"
      let ?st' = "dfs_for g goal ao u ws ?rc"
      from ns nv have r: "dfs_for g goal ao u (w # ws) st = ?st'" by simp
      have inv0: "dfs_inv g ao s goal ?up" by (rule dfs_inv_parent_upd [OF inv nv])
      have pre: "w \<notin> ds_visited ?up
          \<and> (\<exists>c. has_chain g ao s (ds_parent ?up) (ds_visited ?up) w c)
          \<and> (ds_order ?up = [] \<longrightarrow> w = s)" if "\<not> ds_found ?up"
      proof -
        from that have "\<not> ds_found st" by simp
        from uv [OF this] have u: "u \<in> ds_visited st" .
        with inv0 obtain cu where cu: "has_chain g ao s (ds_parent ?up) (ds_visited ?up) u cu"
          unfolding dfs_inv_def by auto
        have "has_chain g ao s (ds_parent ?up) (ds_visited ?up) w (u # cu)"
          by (rule has_chain_extend [OF cu _ T]) (use u in simp_all)
        moreover from inv u have "ds_order st \<noteq> []" unfolding dfs_inv_def by auto
        ultimately show ?thesis using nv by auto
      qed
      from "3.IH"(2) [OF ns nv inv0 pre]
      have inv2: "dfs_inv g ao s goal ?rc" and sub2: "ds_visited st \<subseteq> ds_visited ?rc"
        and post2: "\<not> ds_found ?rc \<Longrightarrow>
                      w \<in> ds_visited ?rc \<and> dfs_closed g ao (ds_visited st) (ds_visited ?rc)"
        by simp_all
      have uv2: "u \<in> ds_visited ?rc" if "\<not> ds_found ?rc"
      proof -
        from dfs_inv_found_mono [OF inv inv2 sub2] that have "\<not> ds_found st" by blast
        from uv [OF this] sub2 show ?thesis by blast
      qed
      from "3.IH"(3) [OF ns nv inv2 uv2]
      have inv': "dfs_inv g ao s goal ?st'" and sub': "ds_visited ?rc \<subseteq> ds_visited ?st'"
        and post': "\<not> ds_found ?st' \<Longrightarrow>
                      dfs_closed g ao (ds_visited ?rc) (ds_visited ?st')
                      \<and> (\<forall>x\<in>set ws. traversable g ao u x \<longrightarrow> x \<in> ds_visited ?st')"
        by simp_all
      have "dfs_closed g ao (ds_visited st) (ds_visited ?st')
            \<and> (\<forall>x\<in>set (w # ws). traversable g ao u x \<longrightarrow> x \<in> ds_visited ?st')"
        if nf': "\<not> ds_found ?st'"
      proof -
        from dfs_inv_found_mono [OF inv2 inv' sub'] nf' have nf2: "\<not> ds_found ?rc" by blast
        from post2 [OF nf2] post' [OF nf'] sub'
        show ?thesis by (auto intro: dfs_closed_trans)
      qed
      with inv' sub2 sub' show ?thesis unfolding r by auto
    qed
  qed
qed


lemma dfs_inv_visited_reachable:
  assumes "dfs_inv g ao s goal st" "v \<in> ds_visited st"
  shows "\<exists>p. is_route g ao s v p"
proof -
  from assms obtain c where "has_chain g ao s (ds_parent st) (ds_visited st) v c"
    unfolding dfs_inv_def by blast
  from has_chain_route [OF this] show ?thesis by blast
qed

lemma closed_all_reachable:
  assumes "s \<in> V" "\<forall>x\<in>V. \<forall>y. traversable g ao x y \<longrightarrow> y \<in> V" "is_route g ao s v p"
  shows "v \<in> V"
proof -
  from assms(1,3) have "successively (traversable g ao) p" "p \<noteq> []" "hd p \<in> V" "last p = v"
    by (simp_all add: is_route_def)
  from route_in_closed [OF this(1-3) assms(2)] this(2,4) show ?thesis
    using last_in_set by blast
qed

text \<open>The outcome of DFS, in one statement.\<close>

lemma dfs_summary:
  "\<exists>ord path. dfs g s goal ao = Some (Inr (ord, path))
     \<and> distinct ord \<and> ord \<noteq> [] \<and> hd ord = s \<and> (goal \<in> set ord \<longrightarrow> last ord = goal)
     \<and> set ord \<subseteq> {v. \<exists>p. is_route g ao s v p}
     \<and> (if \<exists>p. is_route g ao s goal p
         then is_route g ao s goal path
         else path = [] \<and> set ord = {v. \<exists>p. is_route g ao s v p})"
proof -
  let ?ini = "\<lparr>ds_visited = {}, ds_order = [], ds_parent = [s \<mapsto> None], ds_found = False\<rparr>"
  let ?st = "dfs_rec g goal ao s ?ini"
  have inv0: "dfs_inv g ao s goal ?ini" by (simp add: dfs_inv_def)
  have "has_chain g ao s (ds_parent ?ini) (ds_visited ?ini) s []"
    by (simp add: has_chain_def)
  then have pre: "s \<notin> ds_visited ?ini
      \<and> (\<exists>c. has_chain g ao s (ds_parent ?ini) (ds_visited ?ini) s c)
      \<and> (ds_order ?ini = [] \<longrightarrow> s = s)"
    by auto
  note res = dfs_correct(1) [OF inv0 pre]
  from res have inv: "dfs_inv g ao s goal ?st" by blast
  from res have post: "\<not> ds_found ?st \<Longrightarrow> s \<in> ds_visited ?st \<and> dfs_closed g ao {} (ds_visited ?st)"
    by (simp del: dfs_rec.simps)
  from inv have o: "set (ds_order ?st) = ds_visited ?st" "distinct (ds_order ?st)"
    "ds_order ?st \<noteq> [] \<longrightarrow> hd (ds_order ?st) = s"
    and f: "ds_found ?st \<longleftrightarrow> goal \<in> ds_visited ?st"
    and l: "ds_found ?st \<longrightarrow> last (ds_order ?st) = goal"
    unfolding dfs_inv_def by blast+
  have sub: "set (ds_order ?st) \<subseteq> {v. \<exists>p. is_route g ao s v p}"
    using dfs_inv_visited_reachable [OF inv] o(1) by blast
  have ne: "ds_order ?st \<noteq> []"
  proof (cases "ds_found ?st")
    case True
    with f o(1) show ?thesis by auto
  next
    case False
    from post [OF False] o(1) show ?thesis by auto
  qed
  show ?thesis
  proof (cases "ds_found ?st")
    case True
    with f inv obtain c where c: "has_chain g ao s (ds_parent ?st) (ds_visited ?st) goal c"
      unfolding dfs_inv_def by blast
    then have "back_chain (ds_parent ?st) (goal # c)" "last (goal # c) = s"
      by (simp_all add: has_chain_def)
    from reconstruct_path_chain [OF this]
    have "reconstruct_path (ds_parent ?st) s goal = Some (Inr (rev (goal # c)))" .
    with True have "dfs g s goal ao = Some (Inr (ds_order ?st, rev (goal # c)))"
      by (simp add: dfs_def Let_def)
    moreover note has_chain_route [OF c]
    ultimately show ?thesis using o ne sub l True by auto
  next
    case False
    then have d: "dfs g s goal ao = Some (Inr (ds_order ?st, []))"
      by (simp add: dfs_def Let_def)
    from post [OF False] have sv: "s \<in> ds_visited ?st"
      and cl: "\<forall>x\<in>ds_visited ?st. \<forall>y. traversable g ao x y \<longrightarrow> y \<in> ds_visited ?st"
      by (simp_all add: dfs_closed_def)
    have all: "{v. \<exists>p. is_route g ao s v p} \<subseteq> set (ds_order ?st)"
      using closed_all_reachable [OF sv cl] o(1) by blast
    moreover from False f o(1) have "goal \<notin> set (ds_order ?st)" by simp
    ultimately have "\<not> (\<exists>p. is_route g ao s goal p)" by blast
    with d o ne sub all \<open>goal \<notin> set (ds_order ?st)\<close> show ?thesis by auto
  qed
qed

section \<open>The claims about the traversals\<close>


lemma fixture_runs:
  "bfs fixture_graph ''A'' ''D'' False
     = Some (Inr ([''A'', ''B'', ''C'', ''D''], [''A'', ''C'', ''D'']))"
  "bfs fixture_graph ''A'' ''D'' True = Some (Inr ([''A'', ''B'', ''C''], []))"
  "dfs fixture_graph ''A'' ''D'' False
     = Some (Inr ([''A'', ''B'', ''C'', ''D''], [''A'', ''B'', ''C'', ''D'']))"
  "dfs fixture_graph ''A'' ''D'' True = Some (Inr ([''A'', ''B'', ''C''], []))"
  by code_simp+


text \<open>
  Claim C8. Both traversals return without an error, and their \<open>visited_order\<close> has no
  duplicate, starts with the start node, and holds the goal, if at all, as its last
  element: nothing is appended once the goal was dequeued (BFS) or visited (DFS).
\<close>

theorem visited_order_shape:
  "(\<exists>ord path. bfs g s goal ao = Some (Inr (ord, path))
       \<and> distinct ord \<and> ord \<noteq> [] \<and> hd ord = s \<and> (goal \<in> set ord \<longrightarrow> last ord = goal))
   \<and> (\<exists>ord path. dfs g s goal ao = Some (Inr (ord, path))
       \<and> distinct ord \<and> ord \<noteq> [] \<and> hd ord = s \<and> (goal \<in> set ord \<longrightarrow> last ord = goal))"
proof
  from bfs_summary [of g s goal ao]
  show "\<exists>ord path. bfs g s goal ao = Some (Inr (ord, path))
       \<and> distinct ord \<and> ord \<noteq> [] \<and> hd ord = s \<and> (goal \<in> set ord \<longrightarrow> last ord = goal)"
    by blast
  from dfs_summary [of g s goal ao]
  show "\<exists>ord path. dfs g s goal ao = Some (Inr (ord, path))
       \<and> distinct ord \<and> ord \<noteq> [] \<and> hd ord = s \<and> (goal \<in> set ord \<longrightarrow> last ord = goal)"
    by blast
qed

theorem visited_order_shape_witness:
  "(\<exists>ord path. bfs fixture_graph ''A'' ''D'' False = Some (Inr (ord, path))
       \<and> distinct ord \<and> hd ord = ''A'' \<and> last ord = ''D'')
   \<and> (\<exists>ord path. dfs fixture_graph ''A'' ''D'' False = Some (Inr (ord, path))
       \<and> distinct ord \<and> hd ord = ''A'' \<and> last ord = ''D'')"
proof -
  note t = visited_order_shape [of fixture_graph "''A''" "''D''" False]
  from t obtain ord path where b: "bfs fixture_graph ''A'' ''D'' False = Some (Inr (ord, path))"
    "distinct ord" "hd ord = ''A''" "''D'' \<in> set ord \<longrightarrow> last ord = ''D''" by blast
  from b(1) have "''D'' \<in> set ord" by (auto simp: fixture_runs)
  with b have 1: "\<exists>ord path. bfs fixture_graph ''A'' ''D'' False = Some (Inr (ord, path))
       \<and> distinct ord \<and> hd ord = ''A'' \<and> last ord = ''D''" by blast
  from t obtain ord' path' where d: "dfs fixture_graph ''A'' ''D'' False = Some (Inr (ord', path'))"
    "distinct ord'" "hd ord' = ''A''" "''D'' \<in> set ord' \<longrightarrow> last ord' = ''D''" by blast
  from d(1) have "''D'' \<in> set ord'" by (auto simp: fixture_runs)
  with d have 2: "\<exists>ord path. dfs fixture_graph ''A'' ''D'' False = Some (Inr (ord, path))
       \<and> distinct ord \<and> hd ord = ''A'' \<and> last ord = ''D''" by blast
  from 1 2 show ?thesis by blast
qed

text \<open>
  Claim C1. When some route over traversable edges leads from the start to the goal, BFS
  returns a non-empty path that is such a route and has no more edges than any such
  route; so it has no more edges than the path of DFS whenever DFS returns a non-empty
  one.
\<close>

theorem bfs_shortest:
  assumes "is_route g ao s goal p"
  shows "\<exists>ord path. bfs g s goal ao = Some (Inr (ord, path))
           \<and> path \<noteq> [] \<and> is_route g ao s goal path
           \<and> (\<forall>p'. is_route g ao s goal p' \<longrightarrow> length path - 1 \<le> length p' - 1)
           \<and> (\<forall>ord' path'. dfs g s goal ao = Some (Inr (ord', path')) \<and> path' \<noteq> []
                 \<longrightarrow> length path - 1 \<le> length path' - 1)"
proof -
  from assms have r: "\<exists>p. is_route g ao s goal p" by blast
  from bfs_summary [of g s goal ao] obtain ord path where
    b: "bfs g s goal ao = Some (Inr (ord, path))"
    "if \<exists>p. is_route g ao s goal p
     then is_route g ao s goal path \<and> length path = Suc (hops g ao s goal)
     else path = [] \<and> set ord = {v. \<exists>p. is_route g ao s v p}"
    by blast
  from b(2) r have route: "is_route g ao s goal path" and len: "length path = Suc (hops g ao s goal)"
    by simp_all
  have least: "length path - 1 \<le> length p' - 1" if "is_route g ao s goal p'" for p'
    using hops_le [OF that] len by simp
  have "length path - 1 \<le> length path' - 1"
    if "dfs g s goal ao = Some (Inr (ord', path'))" "path' \<noteq> []" for ord' path'
  proof -
    from dfs_summary [of g s goal ao] that(1) r have "is_route g ao s goal path'" by auto
    then show ?thesis by (rule least)
  qed
  moreover from route have "path \<noteq> []" by (simp add: is_route_def)
  ultimately show ?thesis using b(1) route least by blast
qed

theorem bfs_shortest_witness:
  "is_route fixture_graph False ''A'' ''D'' [''A'', ''B'', ''C'', ''D'']
   \<and> (\<exists>ord path. bfs fixture_graph ''A'' ''D'' False = Some (Inr (ord, path))
         \<and> is_route fixture_graph False ''A'' ''D'' path \<and> length path - 1 \<le> 3
         \<and> (\<exists>ord' path'. dfs fixture_graph ''A'' ''D'' False = Some (Inr (ord', path'))
               \<and> length path - 1 \<le> length path' - 1))"
proof -
  have r: "is_route fixture_graph False ''A'' ''D'' [''A'', ''B'', ''C'', ''D'']"
    by (simp add: is_route_def traversable_def skip_edge_def get_edge_def dict_get_def
        sorted_pair_def fixture_graph_def)
  from bfs_shortest [OF r] obtain ord path where
    b: "bfs fixture_graph ''A'' ''D'' False = Some (Inr (ord, path))"
    "is_route fixture_graph False ''A'' ''D'' path"
    "\<forall>p'. is_route fixture_graph False ''A'' ''D'' p' \<longrightarrow> length path - 1 \<le> length p' - 1"
    "\<forall>ord' path'. dfs fixture_graph ''A'' ''D'' False = Some (Inr (ord', path')) \<and> path' \<noteq> []
        \<longrightarrow> length path - 1 \<le> length path' - 1"
    by blast
  from b(3) r have "length path - 1 \<le> 3" by fastforce
  moreover from b(4) fixture_runs(3)
  have "\<exists>ord' path'. dfs fixture_graph ''A'' ''D'' False = Some (Inr (ord', path'))
               \<and> length path - 1 \<le> length path' - 1" by fastforce
  ultimately show ?thesis using r b(1,2) by blast
qed

section \<open>Depth-first search and the recursion limit\<close>

lemma dfs_lim_agrees:
  "dfs_rec_lim room g goal ao u st = Inl RecursionError
   \<or> dfs_rec_lim room g goal ao u st = Inr (dfs_rec g goal ao u st)"
  "dfs_for_lim room g goal ao u ws st = Inl RecursionError
   \<or> dfs_for_lim room g goal ao u ws st = Inr (dfs_for g goal ao u ws st)"
proof (induction room g goal ao u st and room g goal ao u ws st
    rule: dfs_rec_lim_dfs_for_lim.induct)
  case (1 g goal ao u st)
  show ?case by simp
next
  case (2 room g goal ao u st)
  show ?case
  proof (cases "ds_found st \<or> u = goal \<or> room = 0")
    case True
    then show ?thesis by (auto simp: dfs_rec.simps Let_def)
  next
    case False
    with "2.IH" [OF _ refl] show ?thesis by (simp add: dfs_rec.simps Let_def)
  qed
next
  case (3 room g goal ao u st)
  show ?case by simp
next
  case (4 g goal ao u w ws st)
  show ?case by simp
next
  case (5 room g goal ao u w ws st)
  show ?case
  proof (cases "skip_edge (get_edge g u w) ao")
    case True
    with "5.IH"(1) show ?thesis by simp
  next
    case ns: False
    show ?thesis
    proof (cases "w \<in> ds_visited st")
      case True
      with ns "5.IH"(4) show ?thesis by simp
    next
      case nv: False
      let ?up = "st\<lparr>ds_parent := (ds_parent st)(w \<mapsto> Some u)\<rparr>"
      from "5.IH"(2) [OF ns nv] consider
        "dfs_rec_lim (Suc room) g goal ao w ?up = Inl RecursionError"
        | "dfs_rec_lim (Suc room) g goal ao w ?up = Inr (dfs_rec g goal ao w ?up)" by blast
      then show ?thesis
      proof cases
        case 1
        with ns nv show ?thesis by simp
      next
        case 2
        from "5.IH"(3) [OF ns nv 2] 2 ns nv show ?thesis by simp
      qed
    qed
  qed
qed

lemma dfs_found_stays:
  "ds_found st \<Longrightarrow> dfs_rec g goal ao u st = st"
  by (simp add: dfs_rec.simps)

lemma dfs_for_found_stays:
  "ds_found st \<Longrightarrow> ds_found (dfs_for g goal ao u ws st)
     \<and> ds_visited (dfs_for g goal ao u ws st) = ds_visited st
     \<and> ds_order (dfs_for g goal ao u ws st) = ds_order st
     \<and> (\<forall>v\<in>ds_visited st. ds_parent (dfs_for g goal ao u ws st) v = ds_parent st v)"
proof (induction ws arbitrary: st)
  case Nil
  then show ?case by simp
next
  case (Cons w ws)
  show ?case
  proof (cases "\<not> skip_edge (get_edge g u w) ao \<and> w \<notin> ds_visited st")
    case True
    let ?up = "st\<lparr>ds_parent := (ds_parent st)(w \<mapsto> Some u)\<rparr>"
    from Cons.prems have f: "ds_found ?up" by simp
    from True have "dfs_for g goal ao u (w # ws) st = dfs_for g goal ao u ws ?up"
      by (simp add: dfs_found_stays [OF f])
    with Cons.IH [OF f] True show ?thesis by auto
  next
    case False
    then have "dfs_for g goal ao u (w # ws) st = dfs_for g goal ao u ws st" by auto
    with Cons.IH [OF Cons.prems] show ?thesis by simp
  qed
qed





lemma dfs_lim_cases:
  "dfs_lim room g s goal ao = Some (Inl RecursionError)
   \<or> dfs_lim room g s goal ao = dfs g s goal ao"
  using dfs_lim_agrees(1)
    [of room g goal ao s "\<lparr>ds_visited = {}, ds_order = [], ds_parent = [s \<mapsto> None], ds_found = False\<rparr>"]
  by (auto simp: dfs_lim_def dfs_def Let_def)



lemma chain_name_not_goal: "chain_name i \<noteq> ''goal''"
  by (simp add: chain_name_def)







lemma chain_goal_unreachable:
  "\<not> (\<exists>p. is_route (chain_graph n) ao (chain_name 0) ''goal'' p)"
proof
  assume "\<exists>p. is_route (chain_graph n) ao (chain_name 0) ''goal'' p"
  then obtain p where p: "is_route (chain_graph n) ao (chain_name 0) ''goal'' p" by blast
  have "2 \<le> length p"
  proof (cases p)
    case Nil
    with p show ?thesis by (simp add: is_route_def)
  next
    case (Cons x rest)
    with p have "x = chain_name 0" by (simp add: is_route_def)
    moreover have "rest \<noteq> []"
    proof
      assume "rest = []"
      with p Cons have "x = ''goal''" by (auto simp: is_route_def)
      with \<open>x = chain_name 0\<close> chain_name_not_goal [of 0] show False by auto
    qed
    ultimately show ?thesis using Cons by (cases rest) simp_all
  qed
  from is_route_butlast [OF p this] obtain x where "traversable (chain_graph n) ao x ''goal''"
    by blast
  then obtain e where "map_of (edges (chain_graph n)) (sorted_pair x ''goal'') = Some e"
    by (cases "map_of (edges (chain_graph n)) (sorted_pair x ''goal'')")
       (auto simp: traversable_def skip_edge_def get_edge_def dict_get_def)
  then have "(sorted_pair x ''goal'', e) \<in> set (edges (chain_graph n))" by (rule map_of_SomeD)
  then obtain i where "sorted_pair x ''goal'' = (chain_name i, chain_name (Suc i))"
    by (auto simp: chain_graph_def)
  then show False
    using chain_name_not_goal by (auto simp: sorted_pair_def split: if_splits)
qed














section \<open>The traversals follow the order of the edge dict\<close>

lemma in_insertion_order_eq:
  "in_insertion_order g ao u = filter (traversable g ao u) (neighbors g u ao)"
  using neighbors_order_facts [of g u ao] by (simp add: in_insertion_order_def)

lemma bfs_scan_expand:
  "bfs_scan g ao u ws st = spec_expand u (filter (traversable g ao u) ws) st"
proof (induction ws arbitrary: st)
  case Nil
  show ?case by (simp add: spec_expand_def)
next
  case (Cons w ws)
  obtain q parent visited where st: "st = (q, parent, visited)" by (cases st) auto
  show ?case
    using Cons.IH by (simp add: st spec_expand_def traversable_def)
qed

lemma spec_bfs_loop_eq:
  "spec_bfs_loop (in_insertion_order g ao) goal q parent visited order
     = Some (bfs_loop g goal ao q parent visited order)"
proof (induction g goal ao q parent visited order rule: bfs_loop.induct)
  case (1 g goal ao parent visited order)
  show ?case by (subst spec_bfs_loop.simps) simp
next
  case (2 g goal ao u q parent visited order)
  show ?case
  proof (cases "u = goal")
    case True
    then show ?thesis by (subst spec_bfs_loop.simps) simp
  next
    case False
    obtain q' parent' visited' where
      scan: "bfs_scan g ao u (neighbors g u ao) (q, parent, visited) = (q', parent', visited')"
      by (cases "bfs_scan g ao u (neighbors g u ao) (q, parent, visited)") auto
    then have ex: "spec_expand u (in_insertion_order g ao u) (q, parent, visited)
        = (q', parent', visited')"
      by (simp add: bfs_scan_expand in_insertion_order_eq)
    from "2.IH" [OF False scan [symmetric] refl]
    have "spec_bfs_loop (in_insertion_order g ao) goal q' parent' visited' (order @ [u])
        = Some (bfs_loop g goal ao q' parent' visited' (order @ [u]))" .
    with False scan ex show ?thesis
      by (subst spec_bfs_loop.simps) simp
  qed
qed

lemma bfs_refines: "bfs g s goal ao = spec_bfs (in_insertion_order g ao) s goal"
  by (simp add: bfs_def spec_bfs_def spec_bfs_loop_eq del: bfs_loop.simps)


lemma same_upto_refl: "same_upto st st"
  by (simp add: same_upto_def)

lemma same_upto_trans: "same_upto a b \<Longrightarrow> same_upto b c \<Longrightarrow> same_upto a c"
  by (simp add: same_upto_def)

lemma dfs_for_after_found:
  assumes "ds_found st"
  shows "ds_found (dfs_for g goal ao u ws st) \<and> same_upto st (dfs_for g goal ao u ws st)"
  using assms dfs_for_found_stays [OF assms, of g goal ao u ws] by (simp add: same_upto_def)

lemma spec_dfs_loop_done: "spec_dfs_loop nb goal ((u, []) # rest) st = spec_dfs_loop nb goal rest st"
  by (subst spec_dfs_loop.simps) simp

lemma spec_dfs_loop_seen:
  "w \<in> ds_visited st \<Longrightarrow>
   spec_dfs_loop nb goal ((u, w # ws) # rest) st = spec_dfs_loop nb goal ((u, ws) # rest) st"
  by (subst spec_dfs_loop.simps) simp

lemma spec_dfs_loop_goal:
  "w \<notin> ds_visited st \<Longrightarrow> w = goal \<Longrightarrow>
   spec_dfs_loop nb goal ((u, w # ws) # rest) st = Some ((spec_visit w u st)\<lparr>ds_found := True\<rparr>)"
  by (subst spec_dfs_loop.simps) simp

lemma spec_dfs_loop_down:
  "w \<notin> ds_visited st \<Longrightarrow> w \<noteq> goal \<Longrightarrow>
   spec_dfs_loop nb goal ((u, w # ws) # rest) st
     = spec_dfs_loop nb goal ((w, nb w) # (u, ws) # rest) (spec_visit w u st)"
  by (subst spec_dfs_loop.simps) simp

lemma dfs_simulates:
  "\<not> ds_found st \<Longrightarrow> u \<noteq> goal \<Longrightarrow>
   (\<forall>rest.
      if ds_found (dfs_rec g goal ao u st)
      then (\<exists>sp. spec_dfs_loop (in_insertion_order g ao) goal
                   ((u, in_insertion_order g ao u) # rest)
                   (st\<lparr>ds_visited := insert u (ds_visited st), ds_order := ds_order st @ [u]\<rparr>)
                 = Some sp \<and> same_upto sp (dfs_rec g goal ao u st))
      else spec_dfs_loop (in_insertion_order g ao) goal
             ((u, in_insertion_order g ao u) # rest)
             (st\<lparr>ds_visited := insert u (ds_visited st), ds_order := ds_order st @ [u]\<rparr>)
           = spec_dfs_loop (in_insertion_order g ao) goal rest (dfs_rec g goal ao u st))"
  "\<not> ds_found st \<Longrightarrow>
   (\<forall>rest.
      if ds_found (dfs_for g goal ao u ws st)
      then (\<exists>sp. spec_dfs_loop (in_insertion_order g ao) goal
                   ((u, filter (traversable g ao u) ws) # rest) st
                 = Some sp \<and> same_upto sp (dfs_for g goal ao u ws st))
      else spec_dfs_loop (in_insertion_order g ao) goal
             ((u, filter (traversable g ao u) ws) # rest) st
           = spec_dfs_loop (in_insertion_order g ao) goal rest (dfs_for g goal ao u ws st))"
proof (induction g goal ao u st and g goal ao u ws st rule: dfs_rec_dfs_for.induct)
  case (1 g goal ao u st)
  let ?mk = "st\<lparr>ds_visited := insert u (ds_visited st), ds_order := ds_order st @ [u]\<rparr>"
  from "1.prems" have r: "dfs_rec g goal ao u st = dfs_for g goal ao u (neighbors g u ao) ?mk"
    by (simp add: dfs_rec.simps Let_def)
  have "\<not> ds_found ?mk" using "1.prems"(1) by simp
  from "1.IH" [OF "1.prems"(1) refl "1.prems"(2) this]
  show ?case unfolding r in_insertion_order_eq [of g ao u] .
next
  case (2 g goal ao u st)
  then show ?case by (simp add: spec_dfs_loop_done)
next
  case (3 g goal ao u w ws st)
  let ?nb = "in_insertion_order g ao"
  let ?fws = "filter (traversable g ao u) ws"
  note nf = "3.prems"
  show ?case
  proof (cases "skip_edge (get_edge g u w) ao")
    case True
    then have "dfs_for g goal ao u (w # ws) st = dfs_for g goal ao u ws st"
      and "filter (traversable g ao u) (w # ws) = ?fws"
      by (simp_all add: traversable_def)
    with "3.IH"(1) [OF True nf] show ?thesis by simp
  next
    case ns: False
    then have fl: "filter (traversable g ao u) (w # ws) = w # ?fws"
      by (simp add: traversable_def)
    show ?thesis
    proof (cases "w \<in> ds_visited st")
      case True
      then have nn: "\<not> w \<notin> ds_visited st" by simp
      from True ns have r: "dfs_for g goal ao u (w # ws) st = dfs_for g goal ao u ws st" by simp
      from "3.IH"(4) [OF ns nn nf] show ?thesis
        unfolding r fl by (simp only: spec_dfs_loop_seen [OF True])
    next
      case nv: False
      let ?up = "st\<lparr>ds_parent := (ds_parent st)(w \<mapsto> Some u)\<rparr>"
      let ?rc = "dfs_rec g goal ao w ?up"
      let ?st' = "dfs_for g goal ao u ws ?rc"
      from ns nv have r: "dfs_for g goal ao u (w # ws) st = ?st'" by simp
      have nfu: "\<not> ds_found ?up" using nf by simp
      have visit: "spec_visit w u st
          = ?up\<lparr>ds_visited := insert w (ds_visited ?up), ds_order := ds_order ?up @ [w]\<rparr>"
        by (simp add: spec_visit_def)
      show ?thesis
      proof (cases "w = goal")
        case True
        have rc: "?rc = (spec_visit w u st)\<lparr>ds_found := True\<rparr>"
          using nfu True by (simp add: dfs_rec.simps Let_def spec_visit_def)
        then have "ds_found ?rc" by simp
        from dfs_for_after_found [OF this, of g goal ao u ws]
        have "ds_found ?st'" "same_upto ((spec_visit w u st)\<lparr>ds_found := True\<rparr>) ?st'"
          by (simp_all add: rc)
        then show ?thesis
          unfolding r fl by (simp add: spec_dfs_loop_goal [OF nv True])
      next
        case ng: False
        note down = spec_dfs_loop_down [OF nv ng, of ?nb u ?fws]
        note ih2 = "3.IH"(2) [OF ns nv nfu ng]
        show ?thesis
        proof (cases "ds_found ?rc")
          case True
          show ?thesis
          proof (intro allI)
            fix rest
            from ih2 True obtain sp where
              sp: "spec_dfs_loop ?nb goal ((w, ?nb w) # (u, ?fws) # rest) (spec_visit w u st) = Some sp"
              "same_upto sp ?rc"
              unfolding visit by (metis (no_types, lifting))
            from dfs_for_after_found [OF True, of g goal ao u ws]
            have f: "ds_found ?st'" and su: "same_upto ?rc ?st'" by simp_all
            from sp(1) have "spec_dfs_loop ?nb goal ((u, w # ?fws) # rest) st = Some sp"
              by (simp add: down)
            with f same_upto_trans [OF sp(2) su]
            show "if ds_found (dfs_for g goal ao u (w # ws) st)
                  then (\<exists>sp. spec_dfs_loop ?nb goal
                          ((u, filter (traversable g ao u) (w # ws)) # rest) st = Some sp
                        \<and> same_upto sp (dfs_for g goal ao u (w # ws) st))
                  else spec_dfs_loop ?nb goal
                         ((u, filter (traversable g ao u) (w # ws)) # rest) st
                       = spec_dfs_loop ?nb goal rest (dfs_for g goal ao u (w # ws) st)"
              unfolding r fl by auto
          qed
        next
          case False
          show ?thesis
          proof (intro allI)
            fix rest
            from ih2 False have
              "spec_dfs_loop ?nb goal ((w, ?nb w) # (u, ?fws) # rest) (spec_visit w u st)
                 = spec_dfs_loop ?nb goal ((u, ?fws) # rest) ?rc"
              unfolding visit by (metis (no_types, lifting))
            then have step: "spec_dfs_loop ?nb goal ((u, w # ?fws) # rest) st
                 = spec_dfs_loop ?nb goal ((u, ?fws) # rest) ?rc"
              by (simp add: down)
            from "3.IH"(3) [OF ns nv False]
            show "if ds_found (dfs_for g goal ao u (w # ws) st)
                  then (\<exists>sp. spec_dfs_loop ?nb goal
                          ((u, filter (traversable g ao u) (w # ws)) # rest) st = Some sp
                        \<and> same_upto sp (dfs_for g goal ao u (w # ws) st))
                  else spec_dfs_loop ?nb goal
                         ((u, filter (traversable g ao u) (w # ws)) # rest) st
                       = spec_dfs_loop ?nb goal rest (dfs_for g goal ao u (w # ws) st)"
              unfolding r fl step by blast
          qed
        qed
      qed
    qed
  qed
qed


lemma dfs_final_inv:
  "dfs_inv g ao s goal
     (dfs_rec g goal ao s
        \<lparr>ds_visited = {}, ds_order = [], ds_parent = [s \<mapsto> None], ds_found = False\<rparr>)"
proof -
  let ?ini = "\<lparr>ds_visited = {}, ds_order = [], ds_parent = [s \<mapsto> None], ds_found = False\<rparr>"
  have inv0: "dfs_inv g ao s goal ?ini" by (simp add: dfs_inv_def)
  have "has_chain g ao s (ds_parent ?ini) (ds_visited ?ini) s []"
    by (simp add: has_chain_def)
  then have pre: "s \<notin> ds_visited ?ini
      \<and> (\<exists>c. has_chain g ao s (ds_parent ?ini) (ds_visited ?ini) s c)
      \<and> (ds_order ?ini = [] \<longrightarrow> s = s)"
    by auto
  from dfs_correct(1) [OF inv0 pre] show ?thesis by blast
qed

lemma same_upto_path:
  assumes "dfs_inv g ao s goal st" "ds_found st" "same_upto sp st"
  shows "reconstruct_path (ds_parent sp) s goal = reconstruct_path (ds_parent st) s goal"
proof -
  from assms(1,2) have gv: "goal \<in> ds_visited st" by (simp add: dfs_inv_def)
  with assms(1) obtain c where c: "has_chain g ao s (ds_parent st) (ds_visited st) goal c"
    unfolding dfs_inv_def by blast
  then have bc: "back_chain (ds_parent st) (goal # c)" and l: "last (goal # c) = s"
    and sub: "set (goal # c) \<subseteq> ds_visited st"
    using gv by (simp_all add: has_chain_def)
  from assms(3) sub have "\<forall>x\<in>set (goal # c). ds_parent sp x = ds_parent st x"
    unfolding same_upto_def by blast
  with bc have "back_chain (ds_parent sp) (goal # c)" by (rule back_chain_frame)
  from reconstruct_path_chain [OF this l] reconstruct_path_chain [OF bc l]
  show ?thesis by simp
qed

lemma dfs_refines: "dfs g s goal ao = spec_dfs (in_insertion_order g ao) s goal"
proof (cases "s = goal")
  case True
  have "dfs g goal goal ao = Some (Inr ([goal], [goal]))"
    by (simp add: dfs_def dfs_rec.simps Let_def reconstruct_path_def walk_back_root)
  moreover have "spec_dfs (in_insertion_order g ao) goal goal = Some (Inr ([goal], [goal]))"
    by (simp add: spec_dfs_def Let_def reconstruct_path_def walk_back_root)
  ultimately show ?thesis using True by simp
next
  case False
  let ?nb = "in_insertion_order g ao"
  let ?ini = "\<lparr>ds_visited = {}, ds_order = [], ds_parent = [s \<mapsto> None], ds_found = False\<rparr>"
  let ?seed = "\<lparr>ds_visited = {s}, ds_order = [s], ds_parent = [s \<mapsto> None], ds_found = False\<rparr>"
  let ?fin = "dfs_rec g goal ao s ?ini"
  have mk: "?ini\<lparr>ds_visited := insert s (ds_visited ?ini), ds_order := ds_order ?ini @ [s]\<rparr> = ?seed"
    by simp
  have "\<not> ds_found ?ini" by simp
  from dfs_simulates(1) [OF this False, of g ao] have sim:
    "if ds_found ?fin
     then (\<exists>sp. spec_dfs_loop ?nb goal [(s, ?nb s)] ?seed = Some sp \<and> same_upto sp ?fin)
     else spec_dfs_loop ?nb goal [(s, ?nb s)] ?seed = spec_dfs_loop ?nb goal [] ?fin"
    unfolding mk by blast
  show ?thesis
  proof (cases "ds_found ?fin")
    case True
    with sim obtain sp where sp: "spec_dfs_loop ?nb goal [(s, ?nb s)] ?seed = Some sp"
      "same_upto sp ?fin" by auto
    from same_upto_path [OF dfs_final_inv True sp(2)]
    have rp: "reconstruct_path (ds_parent sp) s goal = reconstruct_path (ds_parent ?fin) s goal" .
    from sp(2) True have fs: "ds_found sp" and os: "ds_order sp = ds_order ?fin"
      by (simp_all add: same_upto_def)
    have d: "dfs g s goal ao
        = (case reconstruct_path (ds_parent ?fin) s goal of
             None \<Rightarrow> None
           | Some (Inl e) \<Rightarrow> Some (Inl e)
           | Some (Inr path) \<Rightarrow> Some (Inr (ds_order ?fin, path)))"
      using True by (simp add: dfs_def Let_def)
    have "spec_dfs ?nb s goal
        = (case reconstruct_path (ds_parent sp) s goal of
             None \<Rightarrow> None
           | Some (Inl e) \<Rightarrow> Some (Inl e)
           | Some (Inr path) \<Rightarrow> Some (Inr (ds_order sp, path)))"
      using False sp(1) fs by (simp add: spec_dfs_def Let_def)
    then show ?thesis unfolding d rp os by (rule sym)
  next
    case nf: False
    with sim have "spec_dfs_loop ?nb goal [(s, ?nb s)] ?seed = spec_dfs_loop ?nb goal [] ?fin"
      by simp
    also have "\<dots> = Some ?fin" by (subst spec_dfs_loop.simps) simp
    finally show ?thesis
      using nf False by (simp add: dfs_def spec_dfs_def Let_def)
  qed
qed

lemma dfs_lim_refines:
  "dfs_lim room g s goal ao = Some (Inl RecursionError)
   \<or> dfs_lim room g s goal ao = spec_dfs (in_insertion_order g ao) s goal"
  using dfs_lim_cases [of room g s goal ao] by (simp add: dfs_refines)

lemma diamond_runs:
  "bfs (snd diamond_swapped) ''A'' ''D'' False
     = Some (Inr ([''A'', ''C'', ''B'', ''D''], [''A'', ''C'', ''D'']))"
  "dfs (snd diamond_swapped) ''A'' ''D'' False
     = Some (Inr ([''A'', ''C'', ''D''], [''A'', ''C'', ''D'']))"
  by code_simp+

text \<open>
  Claim C2, amended. The neighbours of a node are enumerated in the order of the edge
  dict, which is the order in which the edges were added: the list is the dict's entries
  that are traversable and incident, each mapped to its other endpoint, and a successful
  \<open>add_edge(u, v, ...)\<close> appends \<open>v\<close> to the end of the neighbours of \<open>u\<close> and \<open>u\<close> to
  the end of those of \<open>v\<close> (nothing when the search is accessible-only and the edge is
  not accessible). Both traversals walk that enumeration in its order: on every model
  BFS returns the \<open>visited_order\<close> and the path of the specification's BFS over it, and
  DFS, when it does not run into the recursion limit, those of the specification's DFS
  over it.
\<close>

theorem traversals_follow_insertion_order:
  "neighbors g w accessible_only
     = map (\<lambda>((a, b), e). if a = w then b else a)
         (filter (\<lambda>((a, b), e). \<not> edge_closed e \<and> (accessible_only \<longrightarrow> edge_accessible e)
                                  \<and> (a = w \<or> b = w)) (edges g))
   \<and> (fst (add_edge g u v d t acc) = Inr () \<longrightarrow>
        neighbors (snd (add_edge g u v d t acc)) w accessible_only
          = neighbors g w accessible_only
            @ (if accessible_only \<and> \<not> acc then [] else if w = u then [v] else if w = v then [u] else []))
   \<and> bfs g s goal accessible_only = spec_bfs (in_insertion_order g accessible_only) s goal
   \<and> dfs g s goal accessible_only = spec_dfs (in_insertion_order g accessible_only) s goal
   \<and> (dfs_lim room g s goal accessible_only = Some (Inl RecursionError)
       \<or> dfs_lim room g s goal accessible_only
            = spec_dfs (in_insertion_order g accessible_only) s goal)"
  using neighbors_order_facts [of g w accessible_only u v d t acc]
    bfs_refines [of g s goal accessible_only] dfs_refines [of g s goal accessible_only]
    dfs_lim_refines [of room g s goal accessible_only]
  by (intro conjI) (erule conjunct1, erule conjunct2, assumption+)

theorem traversals_follow_insertion_order_witness:
  "neighbors fixture_graph ''C'' False = [''B'', ''A'', ''D'']
   \<and> neighbors (snd (add_edge fixture_graph ''D'' ''A'' 70 2 True)) ''D'' False
       = neighbors fixture_graph ''D'' False @ [''A'']
   \<and> spec_bfs (in_insertion_order (snd diamond_swapped) False) ''A'' ''D''
       = Some (Inr ([''A'', ''C'', ''B'', ''D''], [''A'', ''C'', ''D'']))
   \<and> spec_dfs (in_insertion_order (snd diamond_swapped) False) ''A'' ''D''
       = Some (Inr ([''A'', ''C'', ''D''], [''A'', ''C'', ''D'']))"
proof -
  have ok: "fst (add_edge fixture_graph ''D'' ''A'' 70 2 True) = Inr ()"
    by (simp add: fixture_graph_def add_edge_def dict_has_def sorted_pair_def)
  have 1: "neighbors fixture_graph ''C'' False = [''B'', ''A'', ''D'']"
    using traversals_follow_insertion_order [of fixture_graph "''C''" False]
    by (simp add: fixture_graph_def)
  have 2: "neighbors (snd (add_edge fixture_graph ''D'' ''A'' 70 2 True)) ''D'' False
       = neighbors fixture_graph ''D'' False @ [''A'']"
    using traversals_follow_insertion_order
            [of fixture_graph "''D''" False "''D''" "''A''" 70 2 True] ok
    by simp
  note t = traversals_follow_insertion_order
             [where g = "snd diamond_swapped" and s = "''A''" and goal = "''D''"
                and accessible_only = False]
  from t have "bfs (snd diamond_swapped) ''A'' ''D'' False
      = spec_bfs (in_insertion_order (snd diamond_swapped) False) ''A'' ''D''" by blast
  then have 3: "spec_bfs (in_insertion_order (snd diamond_swapped) False) ''A'' ''D''
       = Some (Inr ([''A'', ''C'', ''B'', ''D''], [''A'', ''C'', ''D'']))"
    by (simp add: diamond_runs)
  from t have "dfs (snd diamond_swapped) ''A'' ''D'' False
      = spec_dfs (in_insertion_order (snd diamond_swapped) False) ''A'' ''D''" by blast
  then have 4: "spec_dfs (in_insertion_order (snd diamond_swapped) False) ''A'' ''D''
       = Some (Inr ([''A'', ''C'', ''D''], [''A'', ''C'', ''D'']))"
    by (simp add: diamond_runs)
  from 1 2 3 4 show ?thesis by blast
qed

end
